theory Spec2Isabelle
  imports Main "HOL-Library.Word"
begin

unbundle bit_operations_syntax

section \<open>Bytes, errors and the big-endian helpers\<close>

text \<open>
  The embedding follows the two source files of package \<^verbatim>\<open>shadowsocks\<close>: the file
  of the type \<^verbatim>\<open>Conn\<close> (address encoding, dialling, reading and writing) and
  \<^verbatim>\<open>pipe.go\<close> (the two relay loops). Line numbers are those of the file that holds
  the function named.

  Go's \<^verbatim>\<open>[]byte\<close> values are lists of 8-bit words, \<^verbatim>\<open>uint16\<close> and \<^verbatim>\<open>uint32\<close> are
  16-bit and 32-bit words (their arithmetic wraps), and a Go \<^verbatim>\<open>string\<close> is a list of
  8-bit characters. Every error the code can return is a value of \<open>error\<close>; \<open>nil\<close> is
  \<open>None\<close> of \<open>error option\<close>.
\<close>

type_synonym byte = "8 word"

type_synonym bytes = "byte list"

text \<open>
  The errors: \<open>EOF\<close> and \<open>ErrUnexpectedEOF\<close> are those of package \<^verbatim>\<open>io\<close>;
  \<open>AddrError\<close>, \<open>ErrSyntax\<close> and \<open>ErrRange\<close> are what \<^verbatim>\<open>net.SplitHostPort\<close> and
  \<^verbatim>\<open>strconv.Atoi\<close> return; \<open>AddressError\<close> and \<open>InvalidPort\<close> are the two errors
  that \<^verbatim>\<open>RawAddr\<close> builds with \<^verbatim>\<open>fmt.Errorf\<close>; \<open>NetError\<close> is any other error of a
  transport and \<open>CipherError\<close> any error of the cipher. A run-time panic (a nil
  stream, an index or a slice bound out of range) is the value \<open>Panic\<close>.
\<close>

datatype error =
    EOF
  | ErrUnexpectedEOF
  | AddrError string
  | ErrSyntax
  | ErrRange
  | AddressError
  | InvalidPort
  | NetError nat
  | CipherError nat
  | Panic string

text \<open>\<^verbatim>\<open>binary.BigEndian\<close>: \<^verbatim>\<open>PutUint16\<close>, \<^verbatim>\<open>Uint16\<close> and \<^verbatim>\<open>PutUint32\<close>.\<close>

definition PutUint16 :: "16 word \<Rightarrow> bytes" where
  "PutUint16 v = [ucast (drop_bit 8 v), ucast v]"

definition Uint16 :: "bytes \<Rightarrow> 16 word" where
  "Uint16 b = (ucast (b ! 1)) OR push_bit 8 (ucast (b ! 0))"

definition PutUint32 :: "32 word \<Rightarrow> bytes" where
  "PutUint32 v = [ucast (drop_bit 24 v), ucast (drop_bit 16 v), ucast (drop_bit 8 v), ucast v]"

text \<open>
  \<^verbatim>\<open>copy(dst[off:], src)\<close>: overwrites \<open>dst\<close> from offset \<open>off\<close> with as many bytes of
  \<open>src\<close> as fit; the length of \<open>dst\<close> does not change.
\<close>

definition copy_at :: "bytes \<Rightarrow> nat \<Rightarrow> bytes \<Rightarrow> bytes" where
  "copy_at dst off src = take off dst @ take (length dst - off) src @ drop (off + length src) dst"

section \<open>The address encoder\<close>

text \<open>
  \<^verbatim>\<open>net.SplitHostPort\<close> and \<^verbatim>\<open>strconv.Atoi\<close> belong to Go's standard library; they are
  transcribed here so that \<open>RawAddr\<close> can be run on concrete strings.
  \<open>IndexByte\<close> is \<^verbatim>\<open>bytealg.IndexByteString\<close> (first index of a byte), \<open>last_index\<close> is
  \<^verbatim>\<open>last\<close> (last index of a byte); \<open>None\<close> stands for the result -1. The texts of
  the errors are written without their quotation marks.
\<close>

fun IndexByte :: "string \<Rightarrow> char \<Rightarrow> nat option" where
  "IndexByte [] c = None"
| "IndexByte (x # xs) c = (if x = c then Some 0 else map_option Suc (IndexByte xs c))"

definition last_index :: "string \<Rightarrow> char \<Rightarrow> nat option" where
  "last_index s c = map_option (\<lambda>j. length s - 1 - j) (IndexByte (rev s) c)"

definition missingPort :: error where
  "missingPort = AddrError ''missing port in address''"

definition tooManyColons :: error where
  "tooManyColons = AddrError ''too many colons in address''"

text \<open>
  The common tail of \<^verbatim>\<open>SplitHostPort\<close>: no bracket may follow position \<open>j\<close>
  (resp. \<open>k\<close>), and the port is what follows the last colon at \<open>i\<close>.
\<close>

definition split_tail :: "string \<Rightarrow> string \<Rightarrow> nat \<Rightarrow> nat \<Rightarrow> nat \<Rightarrow> error + (string \<times> string)" where
  "split_tail hostport host j k i =
     (if IndexByte (drop j hostport) (CHR ''['') \<noteq> None
        then Inl (AddrError ''unexpected [ in address'')
      else if IndexByte (drop k hostport) (CHR '']'') \<noteq> None
        then Inl (AddrError ''unexpected ] in address'')
      else Inr (host, drop (i + 1) hostport))"

definition SplitHostPort :: "string \<Rightarrow> error + (string \<times> string)" where
  "SplitHostPort hostport =
     (case last_index hostport (CHR '':'') of
        None \<Rightarrow> Inl missingPort
      | Some i \<Rightarrow>
          if hostport ! 0 = CHR ''[''
          then (case IndexByte hostport (CHR '']'') of
                  None \<Rightarrow> Inl (AddrError ''missing ] in address'')
                | Some e \<Rightarrow>
                    if e + 1 = length hostport then Inl missingPort
                    else if e + 1 = i
                      then split_tail hostport (take (e - 1) (drop 1 hostport)) 1 (e + 1) i
                    else if hostport ! (e + 1) = CHR '':'' then Inl tooManyColons
                    else Inl missingPort)
          else (let host = take i hostport in
                if IndexByte host (CHR '':'') \<noteq> None then Inl tooManyColons
                else split_tail hostport host 0 0 i))"

text \<open>
  \<^verbatim>\<open>strconv.Atoi\<close> on a 64-bit platform: an optional sign, at least one decimal digit,
  nothing else, and a value that fits \<^verbatim>\<open>int\<close>.
\<close>

definition is_digit :: "char \<Rightarrow> bool" where
  "is_digit c = (48 \<le> (of_char c :: nat) \<and> (of_char c :: nat) \<le> 57)"

fun digits_val :: "string \<Rightarrow> int \<Rightarrow> int" where
  "digits_val [] n = n"
| "digits_val (c # cs) n = digits_val cs (n * 10 + (int (of_char c) - 48))"

definition Atoi :: "string \<Rightarrow> error + int" where
  "Atoi s =
     (let neg = (s \<noteq> [] \<and> hd s = CHR ''-'');
          ds = (if s \<noteq> [] \<and> (hd s = CHR ''-'' \<or> hd s = CHR ''+'') then tl s else s)
      in if ds = [] \<or> \<not> list_all is_digit ds then Inl ErrSyntax
         else (let n = digits_val ds 0; v = (if neg then - n else n)
               in if v < - (2 ^ 63) \<or> 2 ^ 63 \<le> v then Inl ErrRange else Inr v))"

text \<open>
  \<^verbatim>\<open>RawAddr\<close> (lines 38-63). The buffer is built the way the code builds it: allocated
  with \<open>l\<close> zero bytes, then written field by field. \<^verbatim>\<open>byte(hostLen)\<close> and
  \<^verbatim>\<open>uint16(port)\<close> are Go's truncating conversions.
\<close>

definition RawAddr :: "string \<Rightarrow> error + bytes" where
  "RawAddr addr =
     (case SplitHostPort addr of
        Inl e \<Rightarrow> Inl AddressError
      | Inr (host, portStr) \<Rightarrow>
          (case Atoi portStr of
             Inl e \<Rightarrow> Inl InvalidPort
           | Inr port \<Rightarrow>
               (let hostLen = length host;
                    l = 1 + 1 + hostLen + 2;
                    buf0 = replicate l (0 :: byte);
                    buf1 = buf0[0 := 3];
                    buf2 = buf1[1 := of_nat hostLen];
                    buf3 = copy_at buf2 2 (map of_char host);
                    buf4 = copy_at buf3 (2 + hostLen) (PutUint16 (of_int port))
                in Inr buf4)))"


section \<open>The transport\<close>

text \<open>
  A \<^verbatim>\<open>net.Conn\<close> is an external collaborator. It is modelled by what it will do:
  \<open>rd_script\<close> lists the results of the reads to come, each a segment of bytes with
  an optional error (a read deadline that expires, see \<^verbatim>\<open>SetReadTimeout\<close>, is such an
  error); \<open>wr_script\<close> lists the outcomes of the writes to come (\<open>None\<close>: all bytes
  accepted; \<open>Some (n, e)\<close>: at most \<open>n\<close> bytes accepted, error \<open>e\<close>); \<open>written\<close> is
  the list of byte strings accepted so far, one per call of \<open>Write\<close>; \<open>closed\<close> tells
  whether \<open>Close\<close> was called.

  \<open>net_Read t k\<close> is \<open>t.Read(b)\<close> with \<open>len(b) = k\<close>: it returns at most \<open>k\<close> bytes of
  the next segment and keeps the rest of the segment for the next read; a segment
  that fits is returned together with its error. When the script is used up the
  transport reports \<open>EOF\<close>.
\<close>

record transport =
  rd_script :: "(bytes \<times> error option) list"
  wr_script :: "(nat \<times> error) option list"
  written :: "bytes list"
  closed :: bool

definition net_Read :: "transport \<Rightarrow> nat \<Rightarrow> (bytes \<times> error option) \<times> transport" where
  "net_Read t k =
     (case rd_script t of
        [] \<Rightarrow> (([], Some EOF), t)
      | (d, e) # rest \<Rightarrow>
          if length d \<le> k then ((d, e), t\<lparr>rd_script := rest\<rparr>)
          else ((take k d, None), t\<lparr>rd_script := (drop k d, e) # rest\<rparr>))"

definition net_Write :: "transport \<Rightarrow> bytes \<Rightarrow> (nat \<times> error option) \<times> transport" where
  "net_Write t b =
     (case wr_script t of
        [] \<Rightarrow> ((length b, None), t\<lparr>written := written t @ [b]\<rparr>)
      | None # rest \<Rightarrow> ((length b, None), t\<lparr>wr_script := rest, written := written t @ [b]\<rparr>)
      | Some (n, e) # rest \<Rightarrow>
          ((min n (length b), Some e), t\<lparr>wr_script := rest, written := written t @ [take n b]\<rparr>))"

definition net_Close :: "transport \<Rightarrow> transport" where
  "net_Close t = t\<lparr>closed := True\<rparr>"

text \<open>
  \<^verbatim>\<open>SetReadTimeout\<close> (pipe.go, lines 11-15) arms a deadline on the clock. The model
  has no clock: the connection is returned as it is, and the expiry of a deadline is
  one of the errors a read script can hold.
\<close>

definition SetReadTimeout :: "'a \<Rightarrow> 'a" where
  "SetReadTimeout c = c"

text \<open>
  \<open>pending\<close> bounds the number of reads of positive length that a transport can
  still answer without an error; it is the measure by which the loops below end.
\<close>

definition pending :: "transport \<Rightarrow> nat" where
  "pending t = (\<Sum>(d, e) \<leftarrow> rd_script t. length d + 1)"

lemma net_Read_pending:
  "net_Read t k = ((d, None), t') \<Longrightarrow> 0 < k \<Longrightarrow> pending t' < pending t"
  by (auto simp: net_Read_def pending_def split: list.splits if_splits)

text \<open>
  \<^verbatim>\<open>io.ReadFull(r, buf)\<close> is \<^verbatim>\<open>io.ReadAtLeast(r, buf, len(buf))\<close>: it reads until
  \<open>need\<close> bytes are there or a read returns an error. \<open>rf_net\<close> is that loop on a
  transport, \<open>acc\<close> being the bytes read so far; \<open>ReadFull_net\<close> adds the last lines
  of \<^verbatim>\<open>ReadAtLeast\<close>: no error when enough bytes were read, \<open>ErrUnexpectedEOF\<close>
  when \<open>EOF\<close> came after some bytes.
\<close>

function rf_net :: "transport \<Rightarrow> nat \<Rightarrow> bytes \<Rightarrow> (bytes \<times> error option) \<times> transport" where
  "rf_net t need acc =
     (if length acc < need
      then (case net_Read t (need - length acc) of
              ((d, None), t') \<Rightarrow> rf_net t' need (acc @ d)
            | ((d, Some e), t') \<Rightarrow> ((acc @ d, Some e), t'))
      else ((acc, None), t))"
  by pat_completeness auto

termination
  by (relation "measure (\<lambda>(t, need, acc). pending t)") (auto dest: net_Read_pending [OF sym])

declare rf_net.simps [simp del]

definition ReadFull_net :: "transport \<Rightarrow> nat \<Rightarrow> (bytes \<times> error option) \<times> transport" where
  "ReadFull_net t need =
     (case rf_net t need [] of
        ((buf, err), t') \<Rightarrow>
          ((buf, if need \<le> length buf then None
                 else if 0 < length buf \<and> err = Some EOF then Some ErrUnexpectedEOF
                 else err), t'))"

section \<open>The cipher session\<close>

text \<open>
  The file that declares \<^verbatim>\<open>Cipher\<close> and its methods is not among the sources, nor
  is the one with \<^verbatim>\<open>HmacSha1\<close>, \<^verbatim>\<open>otaReqChunkAuth\<close> and \<^verbatim>\<open>otaConnectAuth\<close>. The
  primitives they rest on are parameters, collected in \<open>prims\<close>: the two stream
  constructors and the stream transform of the specification (section 6; the
  transform works byte by byte on a state \<open>'s\<close>, so it keeps lengths and never looks
  back), the source of random bytes for a fresh IV, the full HMAC-SHA1, and
  \<^verbatim>\<open>otaConnectAuth\<close>, which wraps an address record and is a function of the values of
  its three arguments.
\<close>

record 's prims =
  NewEncryptStream :: "bytes \<Rightarrow> bytes \<Rightarrow> error + 's"
  NewDecryptStream :: "bytes \<Rightarrow> bytes \<Rightarrow> error + 's"
  Transform :: "'s \<Rightarrow> byte \<Rightarrow> byte \<times> 's"
  randRead :: "nat \<Rightarrow> error + bytes"
  hmac :: "bytes \<Rightarrow> bytes \<Rightarrow> bytes"
  otaConnectAuth :: "bytes \<Rightarrow> bytes \<Rightarrow> bytes \<Rightarrow> bytes"

text \<open>
  The fields of \<^verbatim>\<open>Cipher\<close> that the sources use: the two stream states (\<open>None\<close> is
  \<^verbatim>\<open>nil\<close>), key, IV, the flag for one-time authentication, and \<^verbatim>\<open>info.ivLen\<close>.
\<close>

record 's Cipher =
  enc :: "'s option"
  dec :: "'s option"
  key :: bytes
  iv :: bytes
  ota :: bool
  ivLen :: nat

text \<open>
  \<open>xform\<close> runs the byte transform of the primitives over a byte string, threading
  the state.
\<close>

fun xform :: "('s \<Rightarrow> byte \<Rightarrow> byte \<times> 's) \<Rightarrow> 's \<Rightarrow> bytes \<Rightarrow> bytes \<times> 's" where
  "xform f st [] = ([], st)"
| "xform f st (b # bs) =
     (case f st b of (b', st1) \<Rightarrow> (case xform f st1 bs of (bs', st2) \<Rightarrow> (b' # bs', st2)))"

text \<open>
  Modelled from the spec: \<^verbatim>\<open>Cipher.initEncrypt\<close> (its file is not among the sources).
  Section 4.1: generate a fresh IV of the cipher's length, initialise the encrypt
  state from key and IV, return the IV. The IV is stored in the session, where
  \<^verbatim>\<open>DialWithRawAddr\<close> reads it back as \<^verbatim>\<open>cipher.iv\<close>. A failure leaves the session
  as it was.
\<close>

definition initEncrypt :: "'s prims \<Rightarrow> 's Cipher \<Rightarrow> (error + bytes) \<times> 's Cipher" where
  "initEncrypt P c =
     (case randRead P (ivLen c) of
        Inl e \<Rightarrow> (Inl e, c)
      | Inr v \<Rightarrow>
          (case NewEncryptStream P (key c) v of
             Inl e \<Rightarrow> (Inl e, c)
           | Inr st \<Rightarrow> (Inr v, c\<lparr>iv := v, enc := Some st\<rparr>)))"

text \<open>
  Modelled from the spec: \<^verbatim>\<open>Cipher.initDecrypt\<close> (its file is not among the sources).
  Section 4.1: initialise the decrypt state from the key and the IV of the peer, or
  fail if the stream cannot be built.
\<close>

definition initDecrypt :: "'s prims \<Rightarrow> 's Cipher \<Rightarrow> bytes \<Rightarrow> error option \<times> 's Cipher" where
  "initDecrypt P c v =
     (case NewDecryptStream P (key c) v of
        Inl e \<Rightarrow> (Some e, c)
      | Inr st \<Rightarrow> (None, c\<lparr>dec := Some st\<rparr>))"

text \<open>
  Modelled from the spec: \<^verbatim>\<open>Cipher.encrypt\<close> (its file is not among the sources).
  Section 4.1: transform \<open>len(src)\<close> bytes with the encrypt state, which advances.
  Without a state the call dereferences \<^verbatim>\<open>nil\<close>: the result is \<open>None\<close>.
\<close>

definition encrypt :: "'s prims \<Rightarrow> 's Cipher \<Rightarrow> bytes \<Rightarrow> (bytes \<times> 's Cipher) option" where
  "encrypt P c src =
     (case enc c of
        None \<Rightarrow> None
      | Some st \<Rightarrow> (case xform (Transform P) st src of (out, st') \<Rightarrow> Some (out, c\<lparr>enc := Some st'\<rparr>)))"

text \<open>
  Modelled from the spec: \<^verbatim>\<open>Cipher.decrypt\<close> (its file is not among the sources).
  Section 4.1: the same with the decrypt state.
\<close>

definition decrypt :: "'s prims \<Rightarrow> 's Cipher \<Rightarrow> bytes \<Rightarrow> (bytes \<times> 's Cipher) option" where
  "decrypt P c src =
     (case dec c of
        None \<Rightarrow> None
      | Some st \<Rightarrow> (case xform (Transform P) st src of (out, st') \<Rightarrow> Some (out, c\<lparr>dec := Some st'\<rparr>)))"

text \<open>
  Modelled from the spec: \<^verbatim>\<open>HmacSha1\<close> (its file is not among the sources). Section
  4.5: the tag is HMAC-SHA1 truncated to 10 bytes.
\<close>

definition HmacSha1 :: "'s prims \<Rightarrow> bytes \<Rightarrow> bytes \<Rightarrow> bytes" where
  "HmacSha1 P k data = take 10 (hmac P k data)"

text \<open>
  Modelled from the spec: \<^verbatim>\<open>otaReqChunkAuth\<close> (its file is not among the sources).
  Sections 4.5 and 6: a chunk is the length of the data in 2 bytes big-endian, the
  tag of the data under the key "IV followed by the big-endian 32-bit chunk id",
  and the data.
\<close>

definition otaReqChunkAuth :: "'s prims \<Rightarrow> bytes \<Rightarrow> 32 word \<Rightarrow> bytes \<Rightarrow> bytes" where
  "otaReqChunkAuth P v chunkId data =
     PutUint16 (of_nat (length data)) @ HmacSha1 P (v @ PutUint32 chunkId) data @ data"

section \<open>The encrypted connection\<close>

text \<open>
  \<^verbatim>\<open>Conn\<close> (lines 16-22): the embedded \<^verbatim>\<open>net.Conn\<close> is the field \<open>net_Conn\<close>, the
  embedded \<^verbatim>\<open>*Cipher\<close> the field \<open>cipher\<close>. The two buffers come from the buffer
  pool, which is not among the sources; \<open>NewConn\<close> (lines 24-30) takes them as
  arguments, and \<open>Conn_Close\<close> (lines 32-36) closes the transport (handing the buffers
  back to the pool has no effect on a connection or a transport).
\<close>

record 's Conn =
  net_Conn :: transport
  cipher :: "'s Cipher"
  readBuf :: bytes
  writeBuf :: bytes
  chunkId :: "32 word"

definition NewConn :: "transport \<Rightarrow> 's Cipher \<Rightarrow> bytes \<Rightarrow> bytes \<Rightarrow> 's Conn" where
  "NewConn c ciph rb wb =
     \<lparr>net_Conn = c, cipher = ciph, readBuf = rb, writeBuf = wb, chunkId = 0\<rparr>"

definition Conn_Close :: "'s Conn \<Rightarrow> 's Conn" where
  "Conn_Close c = c\<lparr>net_Conn := net_Close (net_Conn c)\<rparr>"

text \<open>
  \<^verbatim>\<open>GetIv\<close>, \<^verbatim>\<open>GetKey\<close> (lines 101-111) as functions on values: a zeroed buffer of
  the right length, overwritten by \<^verbatim>\<open>copy\<close>. Their effect on the store is the subject
  of the last section of the model. \<^verbatim>\<open>IsOta\<close> (lines 113-115) and
  \<^verbatim>\<open>GetAndIncrChunkId\<close> (lines 117-121; the counter is a \<^verbatim>\<open>uint32\<close> and wraps).
\<close>

definition GetIv :: "'s Conn \<Rightarrow> bytes" where
  "GetIv c = copy_at (replicate (length (iv (cipher c))) 0) 0 (iv (cipher c))"

definition GetKey :: "'s Conn \<Rightarrow> bytes" where
  "GetKey c = copy_at (replicate (length (key (cipher c))) 0) 0 (key (cipher c))"

definition IsOta :: "'s Conn \<Rightarrow> bool" where
  "IsOta c = ota (cipher c)"

definition GetAndIncrChunkId :: "'s Conn \<Rightarrow> 32 word \<times> 's Conn" where
  "GetAndIncrChunkId c = (chunkId c, c\<lparr>chunkId := chunkId c + 1\<rparr>)"

text \<open>
  \<^verbatim>\<open>Conn.Read\<close> (lines 123-162), with \<open>lenb\<close> for \<open>len(b)\<close>. \<open>Conn_read_iv\<close> is the
  block guarded by \<^verbatim>\<open>c.dec == nil\<close> (lines 138-147), \<open>Conn_read_data\<close> the rest (lines
  150-161). The result is the error and the bytes stored in \<open>b[0:n]\<close>; \<open>n\<close> is their
  number. The scratch region is the pooled buffer when it is long enough, and then
  what was read stays in that buffer.
\<close>

definition Conn_read_iv :: "'s prims \<Rightarrow> 's Conn \<Rightarrow> error option \<times> 's Conn" where
  "Conn_read_iv P c =
     (case ReadFull_net (net_Conn c) (ivLen (cipher c)) of
        ((v, Some e), t) \<Rightarrow> (Some e, c\<lparr>net_Conn := t\<rparr>)
      | ((v, None), t) \<Rightarrow>
          (case initDecrypt P (cipher c) v of
             (Some e, ci) \<Rightarrow> (Some e, c\<lparr>net_Conn := t, cipher := ci\<rparr>)
           | (None, ci) \<Rightarrow>
               (None, c\<lparr>net_Conn := t,
                         cipher := (if length (iv ci) = 0 then ci\<lparr>iv := v\<rparr> else ci)\<rparr>)))"

definition Conn_read_data :: "'s prims \<Rightarrow> 's Conn \<Rightarrow> nat \<Rightarrow> (bytes \<times> error option) \<times> 's Conn" where
  "Conn_read_data P c lenb =
     (let pooled = \<not> length (readBuf c) < lenb;
          cipherData = (if length (readBuf c) < lenb then replicate lenb 0
                        else take lenb (readBuf c))
      in case net_Read (net_Conn c) (length cipherData) of
           ((d, err), t) \<Rightarrow>
             (let c1 = c\<lparr>net_Conn := t,
                          readBuf := (if pooled then copy_at (readBuf c) 0 d else readBuf c)\<rparr>
              in if 0 < length d
                 then (case decrypt P (cipher c1) d of
                         None \<Rightarrow> (([], Some (Panic ''nil stream'')), c1)
                       | Some (plain, ci) \<Rightarrow> ((plain, err), c1\<lparr>cipher := ci\<rparr>))
                 else (([], err), c1)))"

definition Conn_Read :: "'s prims \<Rightarrow> 's Conn \<Rightarrow> nat \<Rightarrow> (bytes \<times> error option) \<times> 's Conn" where
  "Conn_Read P c lenb =
     (if dec (cipher c) = None
      then (case Conn_read_iv P c of
              (Some e, c1) \<Rightarrow> (([], Some e), c1)
            | (None, c1) \<Rightarrow> Conn_read_data P c1 lenb)
      else Conn_read_data P c lenb)"

text \<open>
  \<^verbatim>\<open>Conn.write\<close> (lines 172-200) and \<^verbatim>\<open>Conn.Write\<close> (lines 164-170). The count that
  is returned is the one of \<^verbatim>\<open>c.Conn.Write(cipherData)\<close>.
\<close>

definition Conn_write :: "'s prims \<Rightarrow> 's Conn \<Rightarrow> bytes \<Rightarrow> (nat \<times> error option) \<times> 's Conn" where
  "Conn_write P c b =
     (case (if enc (cipher c) = None then initEncrypt P (cipher c) else (Inr [], cipher c)) of
        (Inl e, ci) \<Rightarrow> ((0, Some e), c\<lparr>cipher := ci\<rparr>)
      | (Inr v, ci) \<Rightarrow>
          (let dataSize = length b + length v;
               pooled = \<not> length (writeBuf c) < dataSize;
               cipherData0 = (if length (writeBuf c) < dataSize then replicate dataSize 0
                              else take dataSize (writeBuf c));
               cipherData1 = copy_at cipherData0 0 v
           in case encrypt P ci b of
                None \<Rightarrow> ((0, Some (Panic ''nil stream'')), c\<lparr>cipher := ci\<rparr>)
              | Some (ct, ci') \<Rightarrow>
                  (let cipherData2 = copy_at cipherData1 (length v) ct
                   in case net_Write (net_Conn c) cipherData2 of
                        ((n, err), t) \<Rightarrow>
                          ((n, err),
                           c\<lparr>net_Conn := t, cipher := ci',
                             writeBuf := (if pooled then copy_at (writeBuf c) 0 cipherData2
                                          else writeBuf c)\<rparr>))))"

definition Conn_Write :: "'s prims \<Rightarrow> 's Conn \<Rightarrow> bytes \<Rightarrow> (nat \<times> error option) \<times> 's Conn" where
  "Conn_Write P c b =
     (if ota (cipher c)
      then (case GetAndIncrChunkId c of
              (cid, c1) \<Rightarrow> Conn_write P c1 (otaReqChunkAuth P (iv (cipher c1)) cid b))
      else Conn_write P c b)"

text \<open>
  \<^verbatim>\<open>io.ReadFull\<close> on an encrypted connection, as the relay with one-time
  authentication calls it. Every read of positive length that returns no error
  uses up part of the read script of the transport, so the loop ends.
\<close>

lemma rf_net_pending: "pending (snd (rf_net t need acc)) \<le> pending t"
proof (induction t need acc rule: rf_net.induct)
  case (1 t need acc)
  show ?case
  proof (cases "length acc < need")
    case False
    then show ?thesis by (simp add: rf_net.simps)
  next
    case True
    obtain d e t' where r: "net_Read t (need - length acc) = ((d, e), t')"
      by (metis prod.collapse)
    show ?thesis
    proof (cases e)
      case None
      with True r "1.IH" [of "(d, None)" t' d None] net_Read_pending [of t "need - length acc" d t']
      show ?thesis by (simp add: rf_net.simps)
    next
      case (Some a)
      with True r show ?thesis
        by (auto simp: rf_net.simps net_Read_def pending_def split: list.splits if_splits)
    qed
  qed
qed

lemma ReadFull_net_pending: "pending (snd (ReadFull_net t need)) \<le> pending t"
  using rf_net_pending [of t need "[]"]
  by (auto simp: ReadFull_net_def split: prod.splits)

lemma Conn_read_data_pending:
  assumes "Conn_read_data P c k = ((d, None), c')" and "0 < k"
  shows "pending (net_Conn c') < pending (net_Conn c)"
proof -
  obtain d0 e0 t0 where r: "net_Read (net_Conn c) k = ((d0, e0), t0)"
    by (metis prod.collapse)
  from assms r have "e0 = None" and "net_Conn c' = t0"
    by (auto simp: Conn_read_data_def Let_def split: if_splits option.splits prod.splits)
  with r assms(2) show ?thesis
    by (auto dest: net_Read_pending)
qed

lemma Conn_read_iv_pending: "pending (net_Conn (snd (Conn_read_iv P c))) \<le> pending (net_Conn c)"
  using ReadFull_net_pending [of "net_Conn c" "ivLen (cipher c)"]
  by (auto simp: Conn_read_iv_def split: prod.splits option.splits)

lemma Conn_Read_pending:
  assumes "Conn_Read P c k = ((d, None), c')" and "0 < k"
  shows "pending (net_Conn c') < pending (net_Conn c)"
proof (cases "dec (cipher c) = None")
  case False
  with assms show ?thesis
    by (auto simp: Conn_Read_def dest: Conn_read_data_pending)
next
  case True
  obtain e1 c1 where i: "Conn_read_iv P c = (e1, c1)"
    by (metis prod.collapse)
  with True assms(1) have "e1 = None" and "Conn_read_data P c1 k = ((d, None), c')"
    by (auto simp: Conn_Read_def split: option.splits)
  then have "pending (net_Conn c') < pending (net_Conn c1)"
    using assms(2) by (auto dest: Conn_read_data_pending)
  moreover have "pending (net_Conn c1) \<le> pending (net_Conn c)"
    using Conn_read_iv_pending [of P c] i by simp
  ultimately show ?thesis by simp
qed

function rf_conn :: "'s prims \<Rightarrow> 's Conn \<Rightarrow> nat \<Rightarrow> bytes \<Rightarrow> (bytes \<times> error option) \<times> 's Conn" where
  "rf_conn P c need acc =
     (if length acc < need
      then (case Conn_Read P c (need - length acc) of
              ((d, None), c') \<Rightarrow> rf_conn P c' need (acc @ d)
            | ((d, Some e), c') \<Rightarrow> ((acc @ d, Some e), c'))
      else ((acc, None), c))"
  by pat_completeness auto

termination
  by (relation "measure (\<lambda>(P, c, need, acc). pending (net_Conn c))")
     (auto dest: Conn_Read_pending [OF sym])

declare rf_conn.simps [simp del]

definition ReadFull_Conn :: "'s prims \<Rightarrow> 's Conn \<Rightarrow> nat \<Rightarrow> (bytes \<times> error option) \<times> 's Conn" where
  "ReadFull_Conn P c need =
     (case rf_conn P c need [] of
        ((buf, err), c') \<Rightarrow>
          ((buf, if need \<le> length buf then None
                 else if 0 < length buf \<and> err = Some EOF then Some ErrUnexpectedEOF
                 else err), c'))"

section \<open>The dial sequence\<close>

text \<open>
  The constants of lines 11-14.
\<close>

definition OneTimeAuthMask :: byte where
  "OneTimeAuthMask = 0x10"

definition AddrMask :: byte where
  "AddrMask = 0xf"

text \<open>
  \<^verbatim>\<open>DialWithRawAddr\<close> (lines 68-90) and \<^verbatim>\<open>Dial\<close> (lines 93-99). \<open>dialed\<close> is what
  \<^verbatim>\<open>net.Dial\<close> answers. The result records the two values returned (\<open>ret_c\<close>,
  \<open>ret_err\<close>), the connection that was built, if any, in the state in which the call
  leaves it (\<open>built\<close>: this is where one sees whether it was closed), and the contents
  of the caller's \<open>rawaddr\<close> buffer after the call (\<open>caller_rawaddr\<close>: the assignment
  \<^verbatim>\<open>rawaddr[0] |= OneTimeAuthMask\<close> writes into the caller's array, while the later
  assignment to \<open>rawaddr\<close> only rebinds the local variable). Indexing an empty
  \<open>rawaddr\<close> panics. \<open>dial_send\<close> is lines 85-89.
\<close>

record 's dial_result =
  ret_c :: "'s Conn option"
  ret_err :: "error option"
  built :: "'s Conn option"
  caller_rawaddr :: bytes

definition dial_send :: "'s prims \<Rightarrow> 's Conn \<Rightarrow> bytes \<Rightarrow> bytes \<Rightarrow> 's dial_result" where
  "dial_send P c rawaddr caller_buf =
     (case Conn_write P c rawaddr of
        ((n, Some e), c1) \<Rightarrow>
          \<lparr>ret_c = None, ret_err = Some e, built = Some (Conn_Close c1),
           caller_rawaddr = caller_buf\<rparr>
      | ((n, None), c1) \<Rightarrow>
          \<lparr>ret_c = Some c1, ret_err = None, built = Some c1, caller_rawaddr = caller_buf\<rparr>)"

definition DialWithRawAddr ::
  "'s prims \<Rightarrow> error + transport \<Rightarrow> bytes \<Rightarrow> bytes \<Rightarrow> bytes \<Rightarrow> 's Cipher \<Rightarrow> 's dial_result" where
  "DialWithRawAddr P dialed rb wb rawaddr ciph =
     (case dialed of
        Inl e \<Rightarrow> \<lparr>ret_c = None, ret_err = Some e, built = None, caller_rawaddr = rawaddr\<rparr>
      | Inr conn \<Rightarrow>
          (let c = NewConn conn ciph rb wb
           in if ota ciph
              then (case (if enc (cipher c) = None then initEncrypt P (cipher c)
                          else (Inr [], cipher c)) of
                      (Inl e, ci) \<Rightarrow>
                        \<lparr>ret_c = Some (c\<lparr>cipher := ci\<rparr>), ret_err = Some e,
                         built = Some (c\<lparr>cipher := ci\<rparr>), caller_rawaddr = rawaddr\<rparr>
                    | (Inr v, ci) \<Rightarrow>
                        (case net_Write (net_Conn c) (iv ci) of
                           (r, t) \<Rightarrow>
                             (let c1 = c\<lparr>net_Conn := t, cipher := ci\<rparr>
                              in if rawaddr = []
                                 then \<lparr>ret_c = None,
                                       ret_err = Some (Panic ''index out of range''),
                                       built = Some c1, caller_rawaddr = rawaddr\<rparr>
                                 else (let rawaddr1 = rawaddr[0 := rawaddr ! 0 OR OneTimeAuthMask]
                                       in dial_send P c1
                                            (otaConnectAuth P (iv ci) (key ci) rawaddr1)
                                            rawaddr1))))
              else dial_send P c rawaddr rawaddr))"

definition Dial ::
  "'s prims \<Rightarrow> error + transport \<Rightarrow> bytes \<Rightarrow> bytes \<Rightarrow> string \<Rightarrow> 's Cipher \<Rightarrow> 's dial_result" where
  "Dial P dialed rb wb addr ciph =
     (case RawAddr addr of
        Inl e \<Rightarrow> \<lparr>ret_c = None, ret_err = Some e, built = None, caller_rawaddr = []\<rparr>
      | Inr ra \<Rightarrow> DialWithRawAddr P dialed rb wb ra ciph)"

section \<open>The relay loops\<close>

text \<open>
  \<^verbatim>\<open>PipeThenClose\<close> (pipe.go, lines 18-46). \<open>bufLen\<close> is the length of the pooled
  buffer. With a buffer of length 0 over a transport that still has bytes the loop
  of the source never ends; the loop therefore is a partial function, \<open>None\<close> meaning
  that it does not return. \<open>PipeThenClose\<close> adds the deferred \<^verbatim>\<open>dst.Close()\<close>.
\<close>

partial_function (option) PipeThenClose_loop ::
  "nat \<Rightarrow> transport \<Rightarrow> transport \<Rightarrow> (transport \<times> transport) option" where
  "PipeThenClose_loop bufLen src dst =
     (case net_Read (SetReadTimeout src) bufLen of
        ((d, err), src1) \<Rightarrow>
          if 0 < length d
          then (case net_Write dst d of
                  ((n, Some e), dst1) \<Rightarrow> Some (src1, dst1)
                | ((n, None), dst1) \<Rightarrow>
                    if err \<noteq> None then Some (src1, dst1)
                    else PipeThenClose_loop bufLen src1 dst1)
          else if err \<noteq> None then Some (src1, dst)
          else PipeThenClose_loop bufLen src1 dst)"

declare PipeThenClose_loop.simps [code]

definition PipeThenClose :: "nat \<Rightarrow> transport \<Rightarrow> transport \<Rightarrow> (transport \<times> transport) option" where
  "PipeThenClose bufLen src dst =
     map_option (\<lambda>(src', dst'). (src', net_Close dst')) (PipeThenClose_loop bufLen src dst)"

text \<open>
  \<^verbatim>\<open>PipeThenCloseOta\<close> (pipe.go, lines 49-99). One iteration either goes on
  (\<open>Next\<close>), leaves the loop (\<open>Break\<close>) or panics (\<open>Crash\<close>); the deferred
  \<^verbatim>\<open>dst.Close()\<close> runs in each case.

  \<open>dataBuf_len\<close> is lines 74-79: \<^verbatim>\<open>idxData0+dataLen\<close> is computed in \<^verbatim>\<open>uint16\<close> and
  wraps; when the sum is not above the length of the buffer, \<open>dataBuf\<close> is the slice
  \<^verbatim>\<open>buf[12:sum]\<close>, which panics if the sum wrapped below 12. Slicing \<^verbatim>\<open>buf[:12]\<close>
  panics if the buffer is shorter than 12.
\<close>

datatype 'a step = Next 'a | Break 'a | Crash 'a

definition dataBuf_len :: "nat \<Rightarrow> 16 word \<Rightarrow> nat option" where
  "dataBuf_len bufLen dataLen =
     (let hi = (12 + dataLen :: 16 word)
      in if bufLen < unat hi then Some (unat dataLen)
         else if unat hi < 12 then None
         else Some (unat hi - 12))"

definition ota_iter :: "'s prims \<Rightarrow> nat \<Rightarrow> 's Conn \<times> transport \<Rightarrow> ('s Conn \<times> transport) step" where
  "ota_iter P bufLen sd =
     (case sd of (src, dst) \<Rightarrow>
        if bufLen < 12 then Crash (src, dst)
        else (case ReadFull_Conn P (SetReadTimeout src) 12 of
                ((hdr, Some e), src1) \<Rightarrow> Break (src1, dst)
              | ((hdr, None), src1) \<Rightarrow>
                  (let dataLen = Uint16 (take 2 hdr);
                       expectedHmacSha1 = take 10 (drop 2 hdr)
                   in case dataBuf_len bufLen dataLen of
                        None \<Rightarrow> Crash (src1, dst)
                      | Some k \<Rightarrow>
                          (case ReadFull_Conn P src1 k of
                             ((dataBuf, Some e), src2) \<Rightarrow> Break (src2, dst)
                           | ((dataBuf, None), src2) \<Rightarrow>
                               (case GetAndIncrChunkId src2 of
                                  (cid, src3) \<Rightarrow>
                                    (let chunkIdBytes = PutUint32 cid;
                                         actualHmacSha1 =
                                           HmacSha1 P (GetIv src3 @ chunkIdBytes) dataBuf
                                     in if expectedHmacSha1 \<noteq> actualHmacSha1
                                        then Break (src3, dst)
                                        else (case net_Write dst dataBuf of
                                                ((n, Some e), dst1) \<Rightarrow> Break (src3, dst1)
                                              | ((n, None), dst1) \<Rightarrow> Next (src3, dst1))))))))"

text \<open>
  An iteration that goes on has read a header of 12 bytes, so the read script of
  the source has shrunk: the loop ends on every input.
\<close>

lemma net_Read_pending_data:
  "net_Read t k = ((d, e), t') \<Longrightarrow> d \<noteq> [] \<Longrightarrow> pending t' < pending t"
  by (auto simp: net_Read_def pending_def split: list.splits if_splits)

lemma net_Read_pending_le: "pending (snd (net_Read t k)) \<le> pending t"
  by (auto simp: net_Read_def pending_def split: list.splits if_splits)

lemma length_xform: "xform f st bs = (out, st') \<Longrightarrow> length out = length bs"
  by (induction bs arbitrary: st out st') (fastforce split: prod.splits)+

lemma Conn_read_data_pending_le:
  "pending (net_Conn (snd (Conn_read_data P c k))) \<le> pending (net_Conn c)"
  using net_Read_pending_le [of "net_Conn c" k]
  by (auto simp: Conn_read_data_def Let_def split: prod.splits option.splits if_splits)

lemma Conn_read_data_pending_data:
  assumes "Conn_read_data P c k = ((d, e), c')" and "d \<noteq> []"
  shows "pending (net_Conn c') < pending (net_Conn c)"
proof -
  obtain d0 e0 t0 where r: "net_Read (net_Conn c) k = ((d0, e0), t0)"
    by (metis prod.collapse)
  from assms r have "d0 \<noteq> []" and "net_Conn c' = t0"
    by (auto simp: Conn_read_data_def Let_def split: if_splits option.splits prod.splits)
  with r show ?thesis
    by (auto dest: net_Read_pending_data)
qed

lemma Conn_Read_pending_le: "pending (net_Conn (snd (Conn_Read P c k))) \<le> pending (net_Conn c)"
proof (cases "dec (cipher c) = None")
  case False
  then show ?thesis
    using Conn_read_data_pending_le [of P c k] by (auto simp: Conn_Read_def)
next
  case True
  obtain e1 c1 where i: "Conn_read_iv P c = (e1, c1)"
    by (metis prod.collapse)
  have le: "pending (net_Conn c1) \<le> pending (net_Conn c)"
    using Conn_read_iv_pending [of P c] i by simp
  show ?thesis
  proof (cases e1)
    case None
    have "pending (net_Conn (snd (Conn_read_data P c1 k))) \<le> pending (net_Conn c1)"
      by (rule Conn_read_data_pending_le)
    with True i None le show ?thesis by (simp add: Conn_Read_def)
  next
    case (Some e)
    with True i le show ?thesis by (simp add: Conn_Read_def)
  qed
qed

lemma Conn_Read_pending_data:
  assumes "Conn_Read P c k = ((d, e), c')" and "d \<noteq> []"
  shows "pending (net_Conn c') < pending (net_Conn c)"
proof (cases "dec (cipher c) = None")
  case False
  with assms show ?thesis
    by (auto simp: Conn_Read_def dest: Conn_read_data_pending_data)
next
  case True
  obtain e1 c1 where i: "Conn_read_iv P c = (e1, c1)"
    by (metis prod.collapse)
  with True assms have "Conn_read_data P c1 k = ((d, e), c')"
    by (auto simp: Conn_Read_def split: option.splits)
  then have "pending (net_Conn c') < pending (net_Conn c1)"
    using assms(2) by (auto dest: Conn_read_data_pending_data)
  moreover have "pending (net_Conn c1) \<le> pending (net_Conn c)"
    using Conn_read_iv_pending [of P c] i by simp
  ultimately show ?thesis by simp
qed

lemma rf_conn_pending_le:
  "pending (net_Conn (snd (rf_conn P c need acc))) \<le> pending (net_Conn c)"
proof (induction P c need acc rule: rf_conn.induct)
  case (1 P c need acc)
  show ?case
  proof (cases "length acc < need")
    case False
    then show ?thesis by (simp add: rf_conn.simps)
  next
    case True
    obtain d e c1 where r: "Conn_Read P c (need - length acc) = ((d, e), c1)"
      by (metis prod.collapse)
    have le: "pending (net_Conn c1) \<le> pending (net_Conn c)"
      using Conn_Read_pending_le [of P c "need - length acc"] r by simp
    show ?thesis
    proof (cases e)
      case None
      with True r le "1.IH" [of "(d, None)" c1 d None]
      show ?thesis by (simp add: rf_conn.simps)
    next
      case (Some a)
      with True r le show ?thesis by (simp add: rf_conn.simps)
    qed
  qed
qed

lemma rf_conn_pending_less:
  assumes "rf_conn P c need acc = ((buf, e), c')" and "length acc < length buf"
  shows "pending (net_Conn c') < pending (net_Conn c)"
proof (cases "length acc < need")
  case False
  with assms show ?thesis by (simp add: rf_conn.simps)
next
  case True
  obtain d e1 c1 where r: "Conn_Read P c (need - length acc) = ((d, e1), c1)"
    by (metis prod.collapse)
  show ?thesis
  proof (cases e1)
    case None
    have "pending (net_Conn c1) < pending (net_Conn c)"
      using r None True by (auto dest: Conn_Read_pending)
    moreover have "pending (net_Conn c') \<le> pending (net_Conn c1)"
      using rf_conn_pending_le [of P c1 need "acc @ d"] assms(1) True r None
      by (simp add: rf_conn.simps)
    ultimately show ?thesis by simp
  next
    case (Some a)
    with True r assms have "c' = c1" and "d \<noteq> []"
      by (auto simp: rf_conn.simps)
    with r show ?thesis by (auto dest: Conn_Read_pending_data)
  qed
qed

lemma rf_conn_None: "rf_conn P c need acc = ((buf, None), c') \<Longrightarrow> need \<le> length buf"
proof (induction P c need acc rule: rf_conn.induct)
  case (1 P c need acc)
  show ?case
  proof (cases "length acc < need")
    case False
    with "1.prems" show ?thesis by (simp add: rf_conn.simps)
  next
    case True
    obtain d e c1 where r: "Conn_Read P c (need - length acc) = ((d, e), c1)"
      by (metis prod.collapse)
    show ?thesis
    proof (cases e)
      case None
      with True r "1.prems" "1.IH" [of "(d, None)" c1 d None]
      show ?thesis by (simp add: rf_conn.simps)
    next
      case (Some a)
      with True r "1.prems" show ?thesis by (simp add: rf_conn.simps)
    qed
  qed
qed

lemma ReadFull_Conn_pending_le:
  "pending (net_Conn (snd (ReadFull_Conn P c need))) \<le> pending (net_Conn c)"
  using rf_conn_pending_le [of P c need "[]"]
  by (auto simp: ReadFull_Conn_def split: prod.splits)

lemma ReadFull_Conn_pending_less:
  assumes "ReadFull_Conn P c need = ((buf, None), c')" and "0 < need"
  shows "pending (net_Conn c') < pending (net_Conn c)"
proof -
  obtain b e c1 where r: "rf_conn P c need [] = ((b, e), c1)"
    by (metis prod.collapse)
  with assms have "c1 = c'" and "b \<noteq> []"
    by (auto simp: ReadFull_Conn_def split: if_splits dest: rf_conn_None)
  with r show ?thesis
    using rf_conn_pending_less [of P c need "[]" b e c'] by simp
qed

lemma ota_iter_pending:
  assumes "ota_iter P bufLen (src, dst) = Next (src', dst')"
  shows "pending (net_Conn src') < pending (net_Conn src)"
proof -
  obtain hdr e1 src1 where h: "ReadFull_Conn P (SetReadTimeout src) 12 = ((hdr, e1), src1)"
    by (metis prod.collapse)
  from assms h have e1: "e1 = None"
    by (auto simp: ota_iter_def split: if_splits option.splits)
  with h have l1: "pending (net_Conn src1) < pending (net_Conn src)"
    using ReadFull_Conn_pending_less [of P src 12 hdr src1] by (simp add: SetReadTimeout_def)
  from assms h e1 obtain k where k: "dataBuf_len bufLen (Uint16 (take 2 hdr)) = Some k"
    by (auto simp: ota_iter_def Let_def split: if_splits option.splits)
  obtain dataBuf e2 src2 where d: "ReadFull_Conn P src1 k = ((dataBuf, e2), src2)"
    by (metis prod.collapse)
  have l2: "pending (net_Conn src2) \<le> pending (net_Conn src1)"
    using ReadFull_Conn_pending_le [of P src1 k] d by simp
  from assms h e1 k d have "net_Conn src' = net_Conn src2"
    by (auto simp: ota_iter_def Let_def GetAndIncrChunkId_def
             split: if_splits option.splits prod.splits)
  with l1 l2 show ?thesis by simp
qed

function PipeThenCloseOta_loop ::
  "'s prims \<Rightarrow> nat \<Rightarrow> 's Conn \<times> transport \<Rightarrow> bool \<times> 's Conn \<times> transport" where
  "PipeThenCloseOta_loop P bufLen sd =
     (case ota_iter P bufLen sd of
        Next sd' \<Rightarrow> PipeThenCloseOta_loop P bufLen sd'
      | Break sd' \<Rightarrow> (False, sd')
      | Crash sd' \<Rightarrow> (True, sd'))"
  by pat_completeness auto

termination
  by (relation "measure (\<lambda>(P, bufLen, src, dst). pending (net_Conn src))")
     (auto dest: ota_iter_pending)

declare PipeThenCloseOta_loop.simps [simp del]

definition PipeThenCloseOta ::
  "'s prims \<Rightarrow> nat \<Rightarrow> 's Conn \<Rightarrow> transport \<Rightarrow> bool \<times> 's Conn \<times> transport" where
  "PipeThenCloseOta P bufLen src dst =
     (case PipeThenCloseOta_loop P bufLen (src, dst) of
        (crashed, src', dst') \<Rightarrow> (crashed, src', net_Close dst'))"

section \<open>Slices and their backing arrays\<close>

text \<open>
  Where aliasing matters, a \<^verbatim>\<open>[]byte\<close> is a slice: a window (offset, length,
  capacity) on a backing array, and the store \<open>heap\<close> is the list of the backing
  arrays allocated so far. \<open>make_bytes\<close> is \<^verbatim>\<open>make([]byte, n)\<close>, \<open>copy_slice\<close> is
  \<^verbatim>\<open>copy(dst, src)\<close>, \<open>set_index\<close> is \<^verbatim>\<open>s[i] = v\<close> (\<open>None\<close>: index out of range) and
  \<open>append_bytes\<close> is \<^verbatim>\<open>append(s, xs...)\<close>, which writes in place while the capacity
  lasts and otherwise moves the contents to a new array with \<open>g\<close> spare bytes.
  \<open>GetIv_heap\<close> and \<open>GetKey_heap\<close> are \<^verbatim>\<open>GetIv\<close> and \<^verbatim>\<open>GetKey\<close> (lines 101-111) on
  this store, given the slices \<^verbatim>\<open>c.iv\<close> and \<^verbatim>\<open>c.key\<close>.
\<close>

type_synonym heap = "bytes list"

record slice =
  sl_arr :: nat
  sl_off :: nat
  sl_len :: nat
  sl_cap :: nat

definition slice_ok :: "heap \<Rightarrow> slice \<Rightarrow> bool" where
  "slice_ok h s =
     (sl_arr s < length h \<and> sl_off s + sl_cap s \<le> length (h ! sl_arr s) \<and> sl_len s \<le> sl_cap s)"

definition slice_bytes :: "heap \<Rightarrow> slice \<Rightarrow> bytes" where
  "slice_bytes h s = take (sl_len s) (drop (sl_off s) (h ! sl_arr s))"

definition make_bytes :: "heap \<Rightarrow> nat \<Rightarrow> slice \<times> heap" where
  "make_bytes h n = (\<lparr>sl_arr = length h, sl_off = 0, sl_len = n, sl_cap = n\<rparr>, h @ [replicate n 0])"

definition copy_slice :: "heap \<Rightarrow> slice \<Rightarrow> slice \<Rightarrow> heap" where
  "copy_slice h dst src =
     (let n = min (sl_len dst) (sl_len src); a = h ! sl_arr dst
      in h[sl_arr dst := take (sl_off dst) a @ take n (slice_bytes h src) @ drop (sl_off dst + n) a])"

definition set_index :: "heap \<Rightarrow> slice \<Rightarrow> nat \<Rightarrow> byte \<Rightarrow> heap option" where
  "set_index h s i v =
     (if i < sl_len s then Some (h[sl_arr s := (h ! sl_arr s)[sl_off s + i := v]]) else None)"

definition append_bytes :: "nat \<Rightarrow> heap \<Rightarrow> slice \<Rightarrow> bytes \<Rightarrow> slice \<times> heap" where
  "append_bytes g h s xs =
     (if sl_len s + length xs \<le> sl_cap s
      then (let a = h ! sl_arr s; e = sl_off s + sl_len s
            in (s\<lparr>sl_len := sl_len s + length xs\<rparr>,
                h[sl_arr s := take e a @ xs @ drop (e + length xs) a]))
      else (let n = sl_len s + length xs
            in (\<lparr>sl_arr = length h, sl_off = 0, sl_len = n, sl_cap = n + g\<rparr>,
                h @ [slice_bytes h s @ xs @ replicate g 0])))"

definition GetIv_heap :: "heap \<Rightarrow> slice \<Rightarrow> slice \<times> heap" where
  "GetIv_heap h c_iv =
     (case make_bytes h (sl_len c_iv) of (v, h1) \<Rightarrow> (v, copy_slice h1 v c_iv))"

definition GetKey_heap :: "heap \<Rightarrow> slice \<Rightarrow> slice \<times> heap" where
  "GetKey_heap h c_key =
     (case make_bytes h (sl_len c_key) of (k, h1) \<Rightarrow> (k, copy_slice h1 k c_key))"

section \<open>Notions used in the statements\<close>

text \<open>
  \<open>stream t\<close> is all that transport \<open>t\<close> will still deliver, segment after segment.
  \<open>step_state\<close> is the state in which an iteration of the relay ends, and
  \<open>ota_after P bufLen n sd\<close> is the state of the relay after \<open>n\<close> iterations that all
  went on (\<open>None\<close> if the loop ends before). \<open>rd_ready\<close>: the decrypt state is set.
\<close>

definition stream :: "transport \<Rightarrow> bytes" where
  "stream t = concat (map fst (rd_script t))"

fun step_state :: "'a step \<Rightarrow> 'a" where
  "step_state (Next s) = s"
| "step_state (Break s) = s"
| "step_state (Crash s) = s"

fun ota_after :: "'s prims \<Rightarrow> nat \<Rightarrow> nat \<Rightarrow> 's Conn \<times> transport \<Rightarrow> ('s Conn \<times> transport) option" where
  "ota_after P bufLen 0 sd = Some sd"
| "ota_after P bufLen (Suc n) sd =
     (case ota_iter P bufLen sd of
        Next sd' \<Rightarrow> ota_after P bufLen n sd'
      | Break sd' \<Rightarrow> None
      | Crash sd' \<Rightarrow> None)"

definition rd_ready :: "'s Conn \<Rightarrow> bool" where
  "rd_ready c = (dec (cipher c) \<noteq> None)"

text \<open>
  \<open>same_below n h h'\<close>: the arrays with index below \<open>n\<close> are the same in both stores.
  \<open>private_copy h c_iv c_key src (r, h')\<close>: in the store \<open>h'\<close> the slice \<open>r\<close> lies on an
  array that \<open>h\<close> did not have and reads as \<open>src\<close> did in \<open>h\<close>; the slices \<open>c_iv\<close> and
  \<open>c_key\<close> read as they did in \<open>h\<close>, and still do after any write through \<open>r\<close> and
  after any append to \<open>r\<close>; an append to \<open>r\<close> reads as the contents of \<open>src\<close> followed
  by what was appended.
\<close>

definition same_below :: "nat \<Rightarrow> heap \<Rightarrow> heap \<Rightarrow> bool" where
  "same_below n h h' = (n \<le> length h' \<and> (\<forall>a < n. h' ! a = h ! a))"

definition private_copy :: "heap \<Rightarrow> slice \<Rightarrow> slice \<Rightarrow> slice \<Rightarrow> slice \<times> heap \<Rightarrow> bool" where
  "private_copy h c_iv c_key src rh =
     (case rh of
        (r, h') \<Rightarrow>
          sl_arr r = length h \<and> slice_ok h' r \<and>
          slice_bytes h' r = slice_bytes h src \<and>
          slice_bytes h' c_iv = slice_bytes h c_iv \<and>
          slice_bytes h' c_key = slice_bytes h c_key \<and>
          (\<forall>i v h''. set_index h' r i v = Some h'' \<longrightarrow>
             slice_bytes h'' c_iv = slice_bytes h c_iv \<and>
             slice_bytes h'' c_key = slice_bytes h c_key) \<and>
          (\<forall>g xs. slice_bytes (snd (append_bytes g h' r xs)) c_iv = slice_bytes h c_iv \<and>
                  slice_bytes (snd (append_bytes g h' r xs)) c_key = slice_bytes h c_key \<and>
                  slice_bytes (snd (append_bytes g h' r xs)) (fst (append_bytes g h' r xs)) =
                    slice_bytes h src @ xs))"

section \<open>A small instance for running the model\<close>

text \<open>
  Primitives that keep the arithmetic visible: the stream transform leaves each
  byte as it is and counts the bytes in its state, a fresh IV is a run of 7s, the
  HMAC is 20 copies of the sum of the bytes of key and message. \<open>demo_norand\<close> is the
  same with a source of random bytes that fails.
\<close>

definition demo :: "nat prims" where
  "demo = \<lparr>NewEncryptStream = (\<lambda>k v. Inr 0), NewDecryptStream = (\<lambda>k v. Inr 0),
            Transform = (\<lambda>st b. (b, st + 1)),
            randRead = (\<lambda>n. Inr (replicate n 7)),
            hmac = (\<lambda>k d. replicate 20 (sum_list (k @ d))),
            otaConnectAuth = (\<lambda>v k d. d @ replicate 10 (sum_list (v @ k @ d)))\<rparr>"

definition demo_norand :: "nat prims" where
  "demo_norand = demo\<lparr>randRead := (\<lambda>n. Inl (CipherError 1))\<rparr>"

definition demo_net :: "(bytes \<times> error option) list \<Rightarrow> bytes list \<Rightarrow> transport" where
  "demo_net evs ws = \<lparr>rd_script = evs, wr_script = [], written = ws, closed = False\<rparr>"

definition demo_wnet :: "(nat \<times> error) option list \<Rightarrow> bytes list \<Rightarrow> bool \<Rightarrow> transport" where
  "demo_wnet ws out cl = \<lparr>rd_script = [], wr_script = ws, written = out, closed = cl\<rparr>"

definition demo_cipher :: "bool \<Rightarrow> nat option \<Rightarrow> bytes \<Rightarrow> nat Cipher" where
  "demo_cipher a e v = \<lparr>enc = e, dec = None, key = [1, 2, 3], iv = v, ota = a, ivLen = 2\<rparr>"

definition demo_conn :: "(bytes \<times> error option) list \<Rightarrow> nat option \<Rightarrow> bytes \<Rightarrow> 32 word \<Rightarrow> nat Conn" where
  "demo_conn evs d v cid =
     \<lparr>net_Conn = demo_net evs [],
      cipher = \<lparr>enc = None, dec = d, key = [1, 2, 3], iv = v, ota = True, ivLen = 2\<rparr>,
      readBuf = [], writeBuf = [], chunkId = cid\<rparr>"

section \<open>Properties of the address encoder\<close>

lemma RawAddr_closed_form:
  assumes "SplitHostPort addr = Inr (host, portStr)" and "Atoi portStr = Inr port"
  shows "RawAddr addr =
           Inr (3 # of_nat (length host) # map of_char host @ PutUint16 (of_int port))"
  using assms by (simp add: RawAddr_def copy_at_def PutUint16_def replicate_append_same)

lemma Uint16_PutUint16: "Uint16 (PutUint16 w) = w"
  unfolding Uint16_def PutUint16_def
  by (simp, rule bit_word_eqI) (auto simp: bit_simps)

lemma IndexByte_None: "IndexByte s c = None \<longleftrightarrow> c \<notin> set s"
  by (induction s) auto

lemma IndexByte_first: "c \<notin> set xs \<Longrightarrow> IndexByte (xs @ c # ys) c = Some (length xs)"
  by (induction xs) auto

lemma last_index_last: "c \<notin> set ys \<Longrightarrow> last_index (xs @ c # ys) c = Some (length xs)"
  by (simp add: last_index_def IndexByte_first)

text \<open>
  A host and a port without colons or brackets, joined by a colon, split into just
  that host and that port.
\<close>

lemma SplitHostPort_plain:
  assumes "CHR '':'' \<notin> set host" "CHR ''['' \<notin> set host" "CHR '']'' \<notin> set host"
      and "CHR '':'' \<notin> set port" "CHR ''['' \<notin> set port" "CHR '']'' \<notin> set port"
  shows "SplitHostPort (host @ CHR '':'' # port) = Inr (host, port)"
proof -
  have li: "last_index (host @ CHR '':'' # port) (CHR '':'') = Some (length host)"
    using assms by (simp add: last_index_last)
  have h0: "(host @ CHR '':'' # port) ! 0 \<noteq> CHR ''[''"
    using assms by (cases host) auto
  show ?thesis
    using assms h0 by (simp add: SplitHostPort_def li split_tail_def IndexByte_None)
qed

lemma Atoi_80: "Atoi ''80'' = Inr 80"
  by (simp add: Atoi_def is_digit_def)

text \<open>
  Claim C3, as amended. The claim as stated speaks of every input \<open>host:port\<close> whose
  port parses as an integer; it fails where the host is longer than 255 bytes or
  the port lies outside \<open>0..65535\<close>, since the fields have one and two bytes. What
  holds: when \<open>addr\<close> splits into \<open>host\<close> and a port string that parses to \<open>port\<close>,
  the host has at most 255 bytes and the port lies in \<open>0..65535\<close>, then \<open>RawAddr\<close>
  returns the byte 3, one byte whose value is the length of the host, the bytes of
  the host, and two bytes that decode big-endian to the port. For
  \<^verbatim>\<open>example.com:443\<close> the record is 03 0B, the eleven bytes of \<^verbatim>\<open>example.com\<close>,
  01 BB.
\<close>

theorem RawAddr_record:
  "(SplitHostPort addr = Inr (host, portStr) \<longrightarrow> Atoi portStr = Inr port \<longrightarrow>
      length host \<le> 255 \<longrightarrow> 0 \<le> port \<longrightarrow> port < 65536 \<longrightarrow>
      (\<exists>l p. RawAddr addr = Inr (3 # l # map of_char host @ p) \<and>
             unat l = length host \<and> length p = 2 \<and> uint (Uint16 p) = port))
   \<and> RawAddr ''example.com:443'' =
       Inr [0x03, 0x0B, 0x65, 0x78, 0x61, 0x6D, 0x70, 0x6C, 0x65, 0x2E, 0x63, 0x6F, 0x6D,
            0x01, 0xBB]"
proof (intro conjI impI)
  assume s: "SplitHostPort addr = Inr (host, portStr)" and a: "Atoi portStr = Inr port"
    and h: "length host \<le> 255" and p: "0 \<le> port" "port < 65536"
  have l: "unat (of_nat (length host) :: byte) = length host"
    using h by (simp add: unat_of_nat)
  have u: "uint (Uint16 (PutUint16 (of_int port))) = port"
    using p by (simp add: Uint16_PutUint16 uint_word_of_int)
  have n: "length (PutUint16 (of_int port)) = 2"
    by (simp add: PutUint16_def)
  from RawAddr_closed_form [OF s a] l u n
  show "\<exists>l p. RawAddr addr = Inr (3 # l # map of_char host @ p) \<and>
          unat l = length host \<and> length p = 2 \<and> uint (Uint16 p) = port"
    by blast
next
  show "RawAddr ''example.com:443'' =
       Inr [0x03, 0x0B, 0x65, 0x78, 0x61, 0x6D, 0x70, 0x6C, 0x65, 0x2E, 0x63, 0x6F, 0x6D,
            0x01, 0xBB]"
    by (simp add: RawAddr_def SplitHostPort_def last_index_def split_tail_def Atoi_def
        is_digit_def copy_at_def PutUint16_def)
qed

theorem RawAddr_record_witness:
  "SplitHostPort ''example.com:443'' = Inr (''example.com'', ''443'') \<and>
   Atoi ''443'' = Inr 443 \<and> length ''example.com'' \<le> 255 \<and>
   (\<exists>l p. RawAddr ''example.com:443'' = Inr (3 # l # map of_char ''example.com'' @ p) \<and>
          unat l = length ''example.com'' \<and> length p = 2 \<and> uint (Uint16 p) = 443)"
proof -
  have s: "SplitHostPort ''example.com:443'' = Inr (''example.com'', ''443'')"
    by (simp add: SplitHostPort_def last_index_def split_tail_def)
  have a: "Atoi ''443'' = Inr 443"
    by (simp add: Atoi_def is_digit_def)
  show ?thesis
    using s a
      RawAddr_record [of "''example.com:443''" "''example.com''" "''443''" 443]
    by (simp add: Uint16_def)
qed

text \<open>
  The counterexample to claim C3 as stated: for a host of 256 bytes and the port 80,
  \<open>RawAddr\<close> returns a record whose length byte is 0, not the length of the host;
  and for the port 70000 it returns the two bytes 11 70, which decode to 4464.
\<close>

theorem RawAddr_record_counterexample:
  "RawAddr (replicate 256 (CHR ''a'') @ '':80'') = Inr (3 # 0 # replicate 256 97 @ [0, 80])
   \<and> unat (0 :: byte) \<noteq> length (replicate 256 (CHR ''a''))
   \<and> RawAddr '':70000'' = Inr [3, 0, 0x11, 0x70]
   \<and> uint (Uint16 [0x11, 0x70]) \<noteq> 70000"
proof -
  have s: "SplitHostPort (replicate 256 (CHR ''a'') @ CHR '':'' # ''80'') =
             Inr (replicate 256 (CHR ''a''), ''80'')"
    by (rule SplitHostPort_plain) simp_all
  have p: "RawAddr '':70000'' = Inr [3, 0, 0x11, 0x70]"
    by (simp add: RawAddr_def SplitHostPort_def last_index_def split_tail_def Atoi_def
        is_digit_def copy_at_def PutUint16_def)
  have u: "uint (Uint16 [0x11, 0x70]) \<noteq> 70000"
    by (simp add: Uint16_def)
  show ?thesis
    using RawAddr_closed_form [OF s Atoi_80] p u by (simp add: PutUint16_def)
qed

text \<open>
  Claim C8: a host longer than 255 bytes must make \<open>RawAddr\<close> fail. The code has no
  such check: for a host of 300 bytes it returns a record, with the length byte
  \<open>300 mod 256 = 44\<close> in front of all 300 host bytes.
\<close>

theorem RawAddr_long_host_not_rejected:
  "RawAddr (replicate 300 (CHR ''a'') @ '':80'') = Inr (3 # 44 # replicate 300 97 @ [0, 80])"
proof -
  have s: "SplitHostPort (replicate 300 (CHR ''a'') @ CHR '':'' # ''80'') =
             Inr (replicate 300 (CHR ''a''), ''80'')"
    by (rule SplitHostPort_plain) simp_all
  show ?thesis
    using RawAddr_closed_form [OF s Atoi_80] by (simp add: PutUint16_def)
qed

section \<open>Properties of reading\<close>

lemma net_Read_stream:
  "net_Read t k = ((d, e), t') \<Longrightarrow> stream t = d @ stream t' \<and> length d \<le> k"
  by (auto simp: net_Read_def stream_def split: list.splits if_splits)

lemma rf_net_stream:
  "rf_net t need acc = ((buf, e), t') \<Longrightarrow> length acc \<le> need \<Longrightarrow>
     acc @ stream t = buf @ stream t' \<and> length buf \<le> need \<and> (e = None \<longrightarrow> need \<le> length buf)"
proof (induction t need acc rule: rf_net.induct)
  case (1 t need acc)
  show ?case
  proof (cases "length acc < need")
    case False
    with "1.prems" show ?thesis by (simp add: rf_net.simps)
  next
    case True
    obtain d e1 t1 where r: "net_Read t (need - length acc) = ((d, e1), t1)"
      by (metis prod.collapse)
    from net_Read_stream [OF r] have s: "stream t = d @ stream t1" "length d \<le> need - length acc"
      by simp_all
    show ?thesis
    proof (cases e1)
      case None
      have l: "length (acc @ d) \<le> need" using s(2) True by simp
      from True r None "1.prems"(1) have "rf_net t1 need (acc @ d) = ((buf, e), t')"
        by (simp add: rf_net.simps)
      from "1.IH" [OF True r [symmetric] refl _ this l] None s show ?thesis by simp
    next
      case (Some a)
      with True r "1.prems" s show ?thesis by (auto simp: rf_net.simps)
    qed
  qed
qed

lemma ReadFull_net_stream:
  assumes "ReadFull_net t need = ((buf, e), t')"
  shows "stream t = buf @ stream t' \<and> length buf \<le> need \<and> (e = None \<longleftrightarrow> length buf = need)"
proof -
  obtain b e0 t0 where r: "rf_net t need [] = ((b, e0), t0)"
    by (metis prod.collapse)
  from rf_net_stream [OF r] have s: "stream t = b @ stream t0" "length b \<le> need"
      "e0 = None \<longrightarrow> need \<le> length b"
    by simp_all
  from assms r have "buf = b" "t' = t0"
    and e: "e = (if need \<le> length b then None
                 else if 0 < length b \<and> e0 = Some EOF then Some ErrUnexpectedEOF else e0)"
    by (auto simp: ReadFull_net_def)
  with s show ?thesis by (auto split: if_splits)
qed

lemma Conn_read_data_ready_result:
  assumes "dec (cipher c) = Some st"
    and "net_Read (net_Conn c) lenb = ((d, err), t')"
    and "xform (Transform P) st d = (plain, st')"
  shows "fst (Conn_read_data P c lenb) = (plain, err) \<and>
         net_Conn (snd (Conn_read_data P c lenb)) = t' \<and>
         dec (cipher (snd (Conn_read_data P c lenb))) = Some st' \<and>
         iv (cipher (snd (Conn_read_data P c lenb))) = iv (cipher c)"
proof (cases "d = []")
  case True
  with assms show ?thesis
    by (auto simp: Conn_read_data_def Let_def)
next
  case False
  with assms show ?thesis
    by (auto simp: Conn_read_data_def Let_def decrypt_def)
qed

text \<open>
  Claim C4. On a connection whose decrypt state is unset, \<open>Read\<close> first runs
  \<open>io.ReadFull\<close> for \<open>ivLen\<close> bytes on the transport: the bytes \<open>v\<close> it obtained are a
  prefix of the transport's byte stream, and the rest of the stream is still to be
  read. If it fails, fewer than \<open>ivLen\<close> bytes were obtained and \<open>Read\<close> returns the
  error and no plaintext. If it succeeds, \<open>v\<close> has exactly \<open>ivLen\<close> bytes, the decrypt
  state is created from \<open>v\<close> (or the error of that is returned, with no plaintext),
  the plaintext is the transform, from that fresh state, of bytes read after \<open>v\<close>,
  and \<open>v\<close> becomes the connection IV if none was recorded. On a connection whose
  decrypt state is set, \<open>Read\<close> does a single transport read, continues from the
  stored state and leaves the IV alone.
\<close>

theorem Conn_Read_iv_once:
  "(dec (cipher c) = None \<longrightarrow>
      (\<exists>v rerr t.
         ReadFull_net (net_Conn c) (ivLen (cipher c)) = ((v, rerr), t) \<and>
         stream (net_Conn c) = v @ stream t \<and>
         (case rerr of
            Some e \<Rightarrow>
              length v < ivLen (cipher c) \<and>
              Conn_Read P c lenb = (([], Some e), c\<lparr>net_Conn := t\<rparr>)
          | None \<Rightarrow>
              length v = ivLen (cipher c) \<and>
              (case NewDecryptStream P (key (cipher c)) v of
                 Inl e \<Rightarrow> Conn_Read P c lenb = (([], Some e), c\<lparr>net_Conn := t\<rparr>)
               | Inr st \<Rightarrow>
                   (\<exists>d err t' plain st'.
                      net_Read t lenb = ((d, err), t') \<and>
                      xform (Transform P) st d = (plain, st') \<and>
                      fst (Conn_Read P c lenb) = (plain, err) \<and>
                      net_Conn (snd (Conn_Read P c lenb)) = t' \<and>
                      dec (cipher (snd (Conn_Read P c lenb))) = Some st' \<and>
                      iv (cipher (snd (Conn_Read P c lenb))) =
                        (if length (iv (cipher c)) = 0 then v else iv (cipher c)))))))
   \<and> (\<forall>st. dec (cipher c) = Some st \<longrightarrow>
        (\<exists>d err t' plain st'.
           net_Read (net_Conn c) lenb = ((d, err), t') \<and>
           xform (Transform P) st d = (plain, st') \<and>
           fst (Conn_Read P c lenb) = (plain, err) \<and>
           net_Conn (snd (Conn_Read P c lenb)) = t' \<and>
           dec (cipher (snd (Conn_Read P c lenb))) = Some st' \<and>
           iv (cipher (snd (Conn_Read P c lenb))) = iv (cipher c)))"
proof (intro conjI allI impI)
  assume u: "dec (cipher c) = None"
  obtain v rerr t where r: "ReadFull_net (net_Conn c) (ivLen (cipher c)) = ((v, rerr), t)"
    by (metis prod.collapse)
  from ReadFull_net_stream [OF r]
  have s: "stream (net_Conn c) = v @ stream t" "length v \<le> ivLen (cipher c)"
    "rerr = None \<longleftrightarrow> length v = ivLen (cipher c)"
    by simp_all
  have "case rerr of
            Some e \<Rightarrow>
              length v < ivLen (cipher c) \<and>
              Conn_Read P c lenb = (([], Some e), c\<lparr>net_Conn := t\<rparr>)
          | None \<Rightarrow>
              length v = ivLen (cipher c) \<and>
              (case NewDecryptStream P (key (cipher c)) v of
                 Inl e \<Rightarrow> Conn_Read P c lenb = (([], Some e), c\<lparr>net_Conn := t\<rparr>)
               | Inr st \<Rightarrow>
                   (\<exists>d err t' plain st'.
                      net_Read t lenb = ((d, err), t') \<and>
                      xform (Transform P) st d = (plain, st') \<and>
                      fst (Conn_Read P c lenb) = (plain, err) \<and>
                      net_Conn (snd (Conn_Read P c lenb)) = t' \<and>
                      dec (cipher (snd (Conn_Read P c lenb))) = Some st' \<and>
                      iv (cipher (snd (Conn_Read P c lenb))) =
                        (if length (iv (cipher c)) = 0 then v else iv (cipher c))))"
  proof (cases rerr)
    case (Some e)
    with u r s show ?thesis
      by (auto simp: Conn_Read_def Conn_read_iv_def)
  next
    case None
    show ?thesis
    proof (cases "NewDecryptStream P (key (cipher c)) v")
      case (Inl e)
      with None u r s show ?thesis
        by (auto simp: Conn_Read_def Conn_read_iv_def initDecrypt_def)
    next
      case (Inr st)
      define c1 where "c1 = c\<lparr>net_Conn := t,
         cipher := (if length (iv (cipher c)) = 0 then (cipher c)\<lparr>dec := Some st, iv := v\<rparr>
                    else (cipher c)\<lparr>dec := Some st\<rparr>)\<rparr>"
      have cr: "Conn_Read P c lenb = Conn_read_data P c1 lenb"
        using None u r Inr by (auto simp: Conn_Read_def Conn_read_iv_def initDecrypt_def c1_def)
      obtain d err t' where n: "net_Read t lenb = ((d, err), t')"
        by (metis prod.collapse)
      obtain plain st' where x: "xform (Transform P) st d = (plain, st')"
        by (metis prod.collapse)
      have d1: "dec (cipher c1) = Some st" and n1: "net_Read (net_Conn c1) lenb = ((d, err), t')"
        and i1: "iv (cipher c1) = (if length (iv (cipher c)) = 0 then v else iv (cipher c))"
        using n by (auto simp: c1_def)
      from Conn_read_data_ready_result [OF d1 n1 x] cr i1 n x None s Inr
      show ?thesis by auto
    qed
  qed
  with r s show "\<exists>v rerr t.
         ReadFull_net (net_Conn c) (ivLen (cipher c)) = ((v, rerr), t) \<and>
         stream (net_Conn c) = v @ stream t \<and>
         (case rerr of
            Some e \<Rightarrow>
              length v < ivLen (cipher c) \<and>
              Conn_Read P c lenb = (([], Some e), c\<lparr>net_Conn := t\<rparr>)
          | None \<Rightarrow>
              length v = ivLen (cipher c) \<and>
              (case NewDecryptStream P (key (cipher c)) v of
                 Inl e \<Rightarrow> Conn_Read P c lenb = (([], Some e), c\<lparr>net_Conn := t\<rparr>)
               | Inr st \<Rightarrow>
                   (\<exists>d err t' plain st'.
                      net_Read t lenb = ((d, err), t') \<and>
                      xform (Transform P) st d = (plain, st') \<and>
                      fst (Conn_Read P c lenb) = (plain, err) \<and>
                      net_Conn (snd (Conn_Read P c lenb)) = t' \<and>
                      dec (cipher (snd (Conn_Read P c lenb))) = Some st' \<and>
                      iv (cipher (snd (Conn_Read P c lenb))) =
                        (if length (iv (cipher c)) = 0 then v else iv (cipher c)))))"
    by blast
next
  fix st
  assume i: "dec (cipher c) = Some st"
  obtain d err t' where n: "net_Read (net_Conn c) lenb = ((d, err), t')"
    by (metis prod.collapse)
  obtain plain st' where x: "xform (Transform P) st d = (plain, st')"
    by (metis prod.collapse)
  have "Conn_Read P c lenb = Conn_read_data P c lenb"
    using i by (simp add: Conn_Read_def)
  with Conn_read_data_ready_result [OF i n x] n x
  show "\<exists>d err t' plain st'.
           net_Read (net_Conn c) lenb = ((d, err), t') \<and>
           xform (Transform P) st d = (plain, st') \<and>
           fst (Conn_Read P c lenb) = (plain, err) \<and>
           net_Conn (snd (Conn_Read P c lenb)) = t' \<and>
           dec (cipher (snd (Conn_Read P c lenb))) = Some st' \<and>
           iv (cipher (snd (Conn_Read P c lenb))) = iv (cipher c)"
    by auto
qed

theorem Conn_Read_iv_once_witness:
  "dec (cipher (demo_conn [([0xAA], None), ([0xBB, 1, 2, 3], None), ([4, 5], None)] None [] 0)) = None \<and>
   ReadFull_net
     (net_Conn (demo_conn [([0xAA], None), ([0xBB, 1, 2, 3], None), ([4, 5], None)] None [] 0)) 2 =
     (([0xAA, 0xBB], None), demo_net [([1, 2, 3], None), ([4, 5], None)] []) \<and>
   Conn_Read demo (demo_conn [([0xAA], None), ([0xBB, 1, 2, 3], None), ([4, 5], None)] None [] 0) 8 =
     (([1, 2, 3], None), demo_conn [([4, 5], None)] (Some 3) [0xAA, 0xBB] 0) \<and>
   dec (cipher (demo_conn [([4, 5], None)] (Some 3) [0xAA, 0xBB] 0)) = Some 3 \<and>
   Conn_Read demo (demo_conn [([4, 5], None)] (Some 3) [0xAA, 0xBB] 0) 8 =
     (([4, 5], None), demo_conn [] (Some 5) [0xAA, 0xBB] 0)"
proof -
  have a: "dec (cipher (demo_conn [([0xAA], None), ([0xBB, 1, 2, 3], None), ([4, 5], None)] None [] 0)) = None"
    by (simp add: demo_conn_def)
  have b: "ReadFull_net
     (net_Conn (demo_conn [([0xAA], None), ([0xBB, 1, 2, 3], None), ([4, 5], None)] None [] 0)) 2 =
     (([0xAA, 0xBB], None), demo_net [([1, 2, 3], None), ([4, 5], None)] [])"
    by code_simp
  have c: "Conn_Read demo (demo_conn [([0xAA], None), ([0xBB, 1, 2, 3], None), ([4, 5], None)] None [] 0) 8 =
     (([1, 2, 3], None), demo_conn [([4, 5], None)] (Some 3) [0xAA, 0xBB] 0)"
    by code_simp
  have d: "dec (cipher (demo_conn [([4, 5], None)] (Some 3) [0xAA, 0xBB] 0)) = Some 3"
    by (simp add: demo_conn_def)
  have e: "Conn_Read demo (demo_conn [([4, 5], None)] (Some 3) [0xAA, 0xBB] 0) 8 =
     (([4, 5], None), demo_conn [] (Some 5) [0xAA, 0xBB] 0)"
    by code_simp
  from Conn_Read_iv_once
         [of "demo_conn [([0xAA], None), ([0xBB, 1, 2, 3], None), ([4, 5], None)] None [] 0" demo 8]
       Conn_Read_iv_once [of "demo_conn [([4, 5], None)] (Some 3) [0xAA, 0xBB] 0" demo 8]
  show ?thesis
    using a b c d e by simp
qed

section \<open>Properties of writing and dialling\<close>

lemma Conn_write_first_count:
  assumes "enc (cipher c) = None"
    and "randRead P (ivLen (cipher c)) = Inr v"
    and "NewEncryptStream P (key (cipher c)) v = Inr st"
    and "wr_script (net_Conn c) = []"
  shows "fst (Conn_write P c b) = (length b + length v, None)"
proof -
  obtain ct st' where x: "xform (Transform P) st b = (ct, st')"
    by (metis prod.collapse)
  have l: "length ct = length b"
    using length_xform [OF x] .
  show ?thesis
    using assms x l
    by (auto simp: Conn_write_def initEncrypt_def encrypt_def net_Write_def copy_at_def Let_def)
qed

text \<open>
  Claim C2: a successful \<open>Write\<close> of \<open>b\<close> must return \<open>len(b)\<close>. The code returns the
  count of the transport write instead. On a fresh connection without one-time
  authentication (IV of 2 bytes) a write of 3 bytes returns 5; on a connection with
  one-time authentication whose encrypt state is already set, a write of 3 bytes
  returns 15, the 3 bytes and the 12 bytes of chunk header.
\<close>

theorem Conn_Write_returns_transport_count:
  "fst (Conn_Write demo (NewConn (demo_wnet [] [] False) (demo_cipher False None []) [] [])
          [65, 66, 67]) = (5, None)
   \<and> fst (Conn_Write demo (NewConn (demo_wnet [] [] False) (demo_cipher True (Some 0) [9, 9]) [] [])
          [65, 66, 67]) = (15, None)"
  by code_simp

text \<open>
  Claim C6: every failure after the transport is open must close the connection and
  return no connection. Two paths of the code do not. When \<open>initEncrypt\<close> fails on
  the path with one-time authentication, the connection is returned together with
  the error, and its transport is still open. When the separate write of the IV
  fails (here: 0 bytes accepted, error), the result of that write is dropped and the
  call returns a connection and no error.
\<close>

theorem DialWithRawAddr_failures_not_surfaced:
  "DialWithRawAddr demo_norand (Inr (demo_wnet [] [] False)) [] [] [3, 1, 97, 0, 80]
       (demo_cipher True None []) =
     \<lparr>ret_c = Some (NewConn (demo_wnet [] [] False) (demo_cipher True None []) [] []),
      ret_err = Some (CipherError 1),
      built = Some (NewConn (demo_wnet [] [] False) (demo_cipher True None []) [] []),
      caller_rawaddr = [3, 1, 97, 0, 80]\<rparr>
   \<and> \<not> closed (net_Conn (NewConn (demo_wnet [] [] False) (demo_cipher True None []) [] []))
   \<and> net_Write (demo_wnet [Some (0, NetError 1)] [] False) [7, 7] =
       ((0, Some (NetError 1)), demo_wnet [] [[]] False)
   \<and> ret_err (DialWithRawAddr demo (Inr (demo_wnet [Some (0, NetError 1)] [] False)) [] []
                 [3, 1, 97, 0, 80] (demo_cipher True None [])) = None
   \<and> ret_c (DialWithRawAddr demo (Inr (demo_wnet [Some (0, NetError 1)] [] False)) [] []
                 [3, 1, 97, 0, 80] (demo_cipher True None [])) \<noteq> None"
  by code_simp

text \<open>
  Claim C9, as amended. Without one-time authentication the caller's \<open>rawaddr\<close>
  buffer is unchanged by \<open>DialWithRawAddr\<close>. With one-time authentication its length
  and every byte after the first are unchanged, and once the transport is open and
  the encrypt state is there, the first byte (the address type) of the caller's
  buffer has the bit \<open>OneTimeAuthMask\<close> set in place.
\<close>

theorem DialWithRawAddr_rawaddr_frame:
  "(\<not> ota ciph \<longrightarrow>
      caller_rawaddr (DialWithRawAddr P dialed rb wb rawaddr ciph) = rawaddr)
   \<and> (ota ciph \<longrightarrow>
        length (caller_rawaddr (DialWithRawAddr P dialed rb wb rawaddr ciph)) = length rawaddr \<and>
        (\<forall>i. 0 < i \<longrightarrow>
           caller_rawaddr (DialWithRawAddr P dialed rb wb rawaddr ciph) ! i = rawaddr ! i))
   \<and> (\<forall>conn v ci.
        ota ciph \<and> dialed = Inr conn \<and> rawaddr \<noteq> [] \<and>
        (if enc ciph = None then initEncrypt P ciph else (Inr [], ciph)) = (Inr v, ci) \<longrightarrow>
          caller_rawaddr (DialWithRawAddr P dialed rb wb rawaddr ciph) =
            rawaddr[0 := rawaddr ! 0 OR OneTimeAuthMask])"
  by (auto simp: DialWithRawAddr_def dial_send_def NewConn_def Let_def
           split: sum.splits prod.splits option.splits if_splits)

theorem DialWithRawAddr_rawaddr_frame_witness:
  "ota (demo_cipher True None []) \<and> [3, 1, 97, 0, 80 :: byte] \<noteq> [] \<and>
   (if enc (demo_cipher True None []) = None then initEncrypt demo (demo_cipher True None [])
    else (Inr [], demo_cipher True None [])) = (Inr [7, 7], demo_cipher True (Some 0) [7, 7]) \<and>
   caller_rawaddr (DialWithRawAddr demo (Inr (demo_wnet [] [] False)) [] [] [3, 1, 97, 0, 80]
                     (demo_cipher True None [])) = [0x13, 1, 97, 0, 80] \<and>
   \<not> ota (demo_cipher False None []) \<and>
   caller_rawaddr (DialWithRawAddr demo (Inr (demo_wnet [] [] False)) [] [] [3, 1, 97, 0, 80]
                     (demo_cipher False None [])) = [3, 1, 97, 0, 80]"
proof -
  have a: "ota (demo_cipher True None [])" "\<not> ota (demo_cipher False None [])"
    by (simp_all add: demo_cipher_def)
  have b: "(if enc (demo_cipher True None []) = None then initEncrypt demo (demo_cipher True None [])
    else (Inr [], demo_cipher True None [])) = (Inr [7, 7], demo_cipher True (Some 0) [7, 7])"
    by code_simp
  from DialWithRawAddr_rawaddr_frame
         [of "demo_cipher True None []" demo "Inr (demo_wnet [] [] False)" "[]" "[]" "[3, 1, 97, 0, 80]"]
       DialWithRawAddr_rawaddr_frame
         [of "demo_cipher False None []" demo "Inr (demo_wnet [] [] False)" "[]" "[]" "[3, 1, 97, 0, 80]"]
  show ?thesis
    using a b by (simp add: OneTimeAuthMask_def)
qed

text \<open>
  The counterexample to claim C9 as stated: with one-time authentication, dialling
  with the record 03 01 61 00 50 leaves 13 01 61 00 50 in the caller's buffer.
\<close>

theorem DialWithRawAddr_rawaddr_counterexample:
  "caller_rawaddr (DialWithRawAddr demo (Inr (demo_wnet [] [] False)) [] [] [3, 1, 97, 0, 80]
                     (demo_cipher True None [])) = [0x13, 1, 97, 0, 80]
   \<and> [0x13, 1, 97, 0, 80] \<noteq> [3, 1, 97, 0, 80 :: byte]"
  by code_simp

section \<open>Properties of the plain relay\<close>

lemma PipeThenClose_loop_total:
  "0 < bufLen \<Longrightarrow> \<exists>r. PipeThenClose_loop bufLen src dst = Some r"
proof (induction "pending src" arbitrary: src dst rule: less_induct)
  case less
  obtain d err src1 where r: "net_Read src bufLen = ((d, err), src1)"
    by (metis prod.collapse)
  show ?case
  proof (cases err)
    case (Some e)
    with r show ?thesis
      by (subst PipeThenClose_loop.simps)
         (auto simp: SetReadTimeout_def split: prod.splits option.splits)
  next
    case None
    with r less.prems have "pending src1 < pending src"
      by (auto dest: net_Read_pending)
    then have ih: "\<And>dst'. \<exists>r. PipeThenClose_loop bufLen src1 dst' = Some r"
      using less.hyps less.prems by blast
    from r None ih show ?thesis
      by (subst PipeThenClose_loop.simps)
         (auto simp: SetReadTimeout_def split: prod.splits option.splits)
  qed
qed

lemma net_Write_ok: "net_Write dst d = ((n, None), dst1) \<Longrightarrow> written dst1 = written dst @ [d] \<and> n = length d"
  by (auto simp: net_Write_def split: list.splits option.splits)

text \<open>
  Claim C7. In the plain relay, a read that returns bytes together with an error has
  its bytes handed to \<open>dst.Write\<close> before the loop stops (and they are appended to what
  \<open>dst\<close> has accepted when that write succeeds); whenever the relay returns, \<open>dst\<close> is
  closed; and with a buffer of positive length the relay does return, whatever the
  two connections do.
\<close>

theorem PipeThenClose_drain_then_close:
  "(\<forall>d e src1. net_Read src bufLen = ((d, Some e), src1) \<and> d \<noteq> [] \<longrightarrow>
      (\<exists>n werr dst1. net_Write dst d = ((n, werr), dst1) \<and>
         (werr = None \<longrightarrow> written dst1 = written dst @ [d]) \<and>
         PipeThenClose bufLen src dst = Some (src1, net_Close dst1)))
   \<and> (\<forall>src' dst'. PipeThenClose bufLen src dst = Some (src', dst') \<longrightarrow> closed dst')
   \<and> (0 < bufLen \<longrightarrow> (\<exists>r. PipeThenClose bufLen src dst = Some r))"
proof (intro conjI allI impI)
  fix d e src1
  assume a: "net_Read src bufLen = ((d, Some e), src1) \<and> d \<noteq> []"
  obtain n werr dst1 where w: "net_Write dst d = ((n, werr), dst1)"
    by (metis prod.collapse)
  have "PipeThenClose_loop bufLen src dst = Some (src1, dst1)"
    using a w by (subst PipeThenClose_loop.simps)
      (auto simp: SetReadTimeout_def split: option.splits)
  then have "PipeThenClose bufLen src dst = Some (src1, net_Close dst1)"
    by (simp add: PipeThenClose_def)
  moreover have "werr = None \<longrightarrow> written dst1 = written dst @ [d]"
    using w by (auto dest: net_Write_ok)
  ultimately show "\<exists>n werr dst1. net_Write dst d = ((n, werr), dst1) \<and>
         (werr = None \<longrightarrow> written dst1 = written dst @ [d]) \<and>
         PipeThenClose bufLen src dst = Some (src1, net_Close dst1)"
    using w by blast
next
  fix src' dst'
  assume "PipeThenClose bufLen src dst = Some (src', dst')"
  then show "closed dst'"
    by (auto simp: PipeThenClose_def net_Close_def)
next
  assume "0 < bufLen"
  then show "\<exists>r. PipeThenClose bufLen src dst = Some r"
    using PipeThenClose_loop_total [of bufLen src dst] by (auto simp: PipeThenClose_def)
qed

theorem PipeThenClose_drain_then_close_witness:
  "net_Read \<lparr>rd_script = [([1, 2, 3], Some EOF)], wr_script = [], written = [], closed = False\<rparr> 4
     = (([1, 2, 3], Some EOF), \<lparr>rd_script = [], wr_script = [], written = [], closed = False\<rparr>)
   \<and> [1, 2, 3 :: byte] \<noteq> [] \<and> (0 :: nat) < 4
   \<and> PipeThenClose 4
        \<lparr>rd_script = [([1, 2, 3], Some EOF)], wr_script = [], written = [], closed = False\<rparr>
        \<lparr>rd_script = [], wr_script = [], written = [], closed = False\<rparr>
     = Some (\<lparr>rd_script = [], wr_script = [], written = [], closed = False\<rparr>,
             \<lparr>rd_script = [], wr_script = [], written = [[1, 2, 3]], closed = True\<rparr>)"
  using PipeThenClose_drain_then_close
    [of "\<lparr>rd_script = [([1, 2, 3], Some EOF)], wr_script = [], written = [], closed = False\<rparr>"
        4 "\<lparr>rd_script = [], wr_script = [], written = [], closed = False\<rparr>"]
  by (simp add: net_Read_def net_Write_def net_Close_def)

section \<open>Properties of the relay with one-time authentication\<close>

lemma copy_at_fresh: "copy_at (replicate (length xs) z) 0 xs = xs"
  by (simp add: copy_at_def)

lemma GetIv_eq: "GetIv c = iv (cipher c)"
  by (simp add: GetIv_def copy_at_fresh)

lemma GetKey_eq: "GetKey c = key (cipher c)"
  by (simp add: GetKey_def copy_at_fresh)

lemma NewConn_chunkId: "chunkId (NewConn c ciph rb wb) = 0"
  by (simp add: NewConn_def)

lemma Conn_read_data_chunkId: "chunkId (snd (Conn_read_data P c k)) = chunkId c"
  by (auto simp: Conn_read_data_def Let_def split: prod.splits option.splits)

lemma Conn_read_iv_chunkId: "chunkId (snd (Conn_read_iv P c)) = chunkId c"
  by (auto simp: Conn_read_iv_def split: prod.splits option.splits)

lemma Conn_Read_chunkId: "chunkId (snd (Conn_Read P c k)) = chunkId c"
  using Conn_read_data_chunkId [of P c k] Conn_read_iv_chunkId [of P c]
    Conn_read_data_chunkId [of P "snd (Conn_read_iv P c)" k]
  by (auto simp: Conn_Read_def split: prod.splits option.splits)

lemma rf_conn_chunkId: "chunkId (snd (rf_conn P c need acc)) = chunkId c"
proof (induction P c need acc rule: rf_conn.induct)
  case (1 P c need acc)
  show ?case
  proof (cases "length acc < need")
    case False
    then show ?thesis by (simp add: rf_conn.simps)
  next
    case True
    obtain d e c1 where r: "Conn_Read P c (need - length acc) = ((d, e), c1)"
      by (metis prod.collapse)
    have c1: "chunkId c1 = chunkId c"
      using Conn_Read_chunkId [of P c "need - length acc"] r by simp
    show ?thesis
    proof (cases e)
      case None
      with True r c1 "1.IH" [of "(d, None)" c1 d None]
      show ?thesis by (simp add: rf_conn.simps)
    next
      case (Some a)
      with True r c1 show ?thesis by (simp add: rf_conn.simps)
    qed
  qed
qed

lemma ReadFull_Conn_chunkId: "ReadFull_Conn P c need = (r, c') \<Longrightarrow> chunkId c' = chunkId c"
  using rf_conn_chunkId [of P c need "[]"]
  by (auto simp: ReadFull_Conn_def split: prod.splits)

text \<open>
  Once the read side is initialised, reading changes neither that fact nor the IV.
\<close>

lemma Conn_read_data_ready:
  "rd_ready c \<Longrightarrow> rd_ready (snd (Conn_read_data P c k)) \<and>
     iv (cipher (snd (Conn_read_data P c k))) = iv (cipher c)"
  by (auto simp: rd_ready_def Conn_read_data_def decrypt_def Let_def
           split: prod.splits option.splits)

lemma Conn_Read_ready:
  "rd_ready c \<Longrightarrow> rd_ready (snd (Conn_Read P c k)) \<and>
     iv (cipher (snd (Conn_Read P c k))) = iv (cipher c)"
  using Conn_read_data_ready [of c P k]
  by (auto simp: Conn_Read_def rd_ready_def)

lemma rf_conn_ready:
  "rd_ready c \<Longrightarrow> rd_ready (snd (rf_conn P c need acc)) \<and>
     iv (cipher (snd (rf_conn P c need acc))) = iv (cipher c)"
proof (induction P c need acc rule: rf_conn.induct)
  case (1 P c need acc)
  show ?case
  proof (cases "length acc < need")
    case False
    with "1.prems" show ?thesis by (simp add: rf_conn.simps)
  next
    case True
    obtain d e c1 where r: "Conn_Read P c (need - length acc) = ((d, e), c1)"
      by (metis prod.collapse)
    have c1: "rd_ready c1 \<and> iv (cipher c1) = iv (cipher c)"
      using Conn_Read_ready [OF "1.prems", of P "need - length acc"] r by simp
    show ?thesis
    proof (cases e)
      case None
      with True r c1 "1.IH" [of "(d, None)" c1 d None]
      show ?thesis by (simp add: rf_conn.simps)
    next
      case (Some a)
      with True r c1 show ?thesis by (simp add: rf_conn.simps)
    qed
  qed
qed

lemma ReadFull_Conn_ready:
  "rd_ready c \<Longrightarrow> ReadFull_Conn P c need = (r, c') \<Longrightarrow>
     rd_ready c' \<and> iv (cipher c') = iv (cipher c)"
  using rf_conn_ready [of c P need "[]"]
  by (auto simp: ReadFull_Conn_def split: prod.splits)

text \<open>What one iteration does once the header and the data of a chunk have been read.\<close>

lemma ota_iter_chunk:
  assumes "12 \<le> bufLen"
    and "ReadFull_Conn P src 12 = ((hdr, None), src1)"
    and "dataBuf_len bufLen (Uint16 (take 2 hdr)) = Some k"
    and "ReadFull_Conn P src1 k = ((data, None), src2)"
  shows "ota_iter P bufLen (src, dst) =
           (if take 10 (drop 2 hdr) \<noteq> HmacSha1 P (iv (cipher src2) @ PutUint32 (chunkId src2)) data
            then Break (src2\<lparr>chunkId := chunkId src2 + 1\<rparr>, dst)
            else (case net_Write dst data of
                    ((n, Some e), dst1) \<Rightarrow> Break (src2\<lparr>chunkId := chunkId src2 + 1\<rparr>, dst1)
                  | ((n, None), dst1) \<Rightarrow> Next (src2\<lparr>chunkId := chunkId src2 + 1\<rparr>, dst1)))"
  using assms
  by (simp add: ota_iter_def SetReadTimeout_def GetAndIncrChunkId_def GetIv_eq Let_def)

lemma ota_iter_forwards:
  assumes "written (snd (step_state (ota_iter P bufLen (src, dst)))) \<noteq> written dst"
  shows "\<exists>hdr src1 k data src2.
           ReadFull_Conn P src 12 = ((hdr, None), src1) \<and>
           dataBuf_len bufLen (Uint16 (take 2 hdr)) = Some k \<and>
           ReadFull_Conn P src1 k = ((data, None), src2) \<and>
           take 10 (drop 2 hdr) = HmacSha1 P (iv (cipher src2) @ PutUint32 (chunkId src2)) data"
proof -
  have b: "12 \<le> bufLen"
    using assms by (auto simp: ota_iter_def split: if_splits)
  obtain hdr e1 src1 where h: "ReadFull_Conn P src 12 = ((hdr, e1), src1)"
    by (metis prod.collapse)
  have e1: "e1 = None"
    using assms b h by (cases e1) (auto simp: ota_iter_def SetReadTimeout_def)
  obtain k where k: "dataBuf_len bufLen (Uint16 (take 2 hdr)) = Some k"
    using assms b h e1
    by (cases "dataBuf_len bufLen (Uint16 (take 2 hdr))")
       (auto simp: ota_iter_def SetReadTimeout_def Let_def)
  obtain data e2 src2 where d: "ReadFull_Conn P src1 k = ((data, e2), src2)"
    by (metis prod.collapse)
  have e2: "e2 = None"
    using assms b h e1 k d by (cases e2) (auto simp: ota_iter_def SetReadTimeout_def Let_def)
  have "take 10 (drop 2 hdr) = HmacSha1 P (iv (cipher src2) @ PutUint32 (chunkId src2)) data"
    using assms ota_iter_chunk [OF b h [unfolded e1] k d [unfolded e2], of dst]
    by (auto split: if_splits)
  with h e1 k d e2 show ?thesis by blast
qed

text \<open>
  Claim C1. Whenever the relay has read the header and the data of a chunk and the
  tag recomputed over the data differs from the ten tag bytes of the header, the
  iteration stops the loop with \<open>dst\<close> untouched, and the relay returns with \<open>dst\<close>
  closed and nothing written to it. Conversely, an iteration that changes what \<open>dst\<close>
  has accepted has read a chunk whose header tag equals the recomputed tag.
\<close>

theorem PipeThenCloseOta_mismatch_stops:
  "(\<forall>hdr src1 k data src2.
      12 \<le> bufLen \<and>
      ReadFull_Conn P src 12 = ((hdr, None), src1) \<and>
      dataBuf_len bufLen (Uint16 (take 2 hdr)) = Some k \<and>
      ReadFull_Conn P src1 k = ((data, None), src2) \<and>
      take 10 (drop 2 hdr) \<noteq> HmacSha1 P (iv (cipher src2) @ PutUint32 (chunkId src2)) data \<longrightarrow>
        ota_iter P bufLen (src, dst) = Break (src2\<lparr>chunkId := chunkId src2 + 1\<rparr>, dst) \<and>
        PipeThenCloseOta P bufLen src dst =
          (False, src2\<lparr>chunkId := chunkId src2 + 1\<rparr>, net_Close dst) \<and>
        written (net_Close dst) = written dst \<and> closed (net_Close dst))
   \<and> (written (snd (step_state (ota_iter P bufLen (src, dst)))) \<noteq> written dst \<longrightarrow>
        (\<exists>hdr src1 k data src2.
           ReadFull_Conn P src 12 = ((hdr, None), src1) \<and>
           dataBuf_len bufLen (Uint16 (take 2 hdr)) = Some k \<and>
           ReadFull_Conn P src1 k = ((data, None), src2) \<and>
           take 10 (drop 2 hdr) = HmacSha1 P (iv (cipher src2) @ PutUint32 (chunkId src2)) data))"
proof (intro conjI allI impI)
  fix hdr src1 k data src2
  assume a: "12 \<le> bufLen \<and>
      ReadFull_Conn P src 12 = ((hdr, None), src1) \<and>
      dataBuf_len bufLen (Uint16 (take 2 hdr)) = Some k \<and>
      ReadFull_Conn P src1 k = ((data, None), src2) \<and>
      take 10 (drop 2 hdr) \<noteq> HmacSha1 P (iv (cipher src2) @ PutUint32 (chunkId src2)) data"
  then have it: "ota_iter P bufLen (src, dst) = Break (src2\<lparr>chunkId := chunkId src2 + 1\<rparr>, dst)"
    using ota_iter_chunk [of bufLen P src hdr src1 k data src2 dst] by simp
  then show "ota_iter P bufLen (src, dst) = Break (src2\<lparr>chunkId := chunkId src2 + 1\<rparr>, dst)" .
  from it show "PipeThenCloseOta P bufLen src dst =
          (False, src2\<lparr>chunkId := chunkId src2 + 1\<rparr>, net_Close dst)"
    by (simp add: PipeThenCloseOta_def PipeThenCloseOta_loop.simps)
  show "written (net_Close dst) = written dst"
    by (simp add: net_Close_def)
  show "closed (net_Close dst)"
    by (simp add: net_Close_def)
next
  assume "written (snd (step_state (ota_iter P bufLen (src, dst)))) \<noteq> written dst"
  then show "\<exists>hdr src1 k data src2.
           ReadFull_Conn P src 12 = ((hdr, None), src1) \<and>
           dataBuf_len bufLen (Uint16 (take 2 hdr)) = Some k \<and>
           ReadFull_Conn P src1 k = ((data, None), src2) \<and>
           take 10 (drop 2 hdr) = HmacSha1 P (iv (cipher src2) @ PutUint32 (chunkId src2)) data"
    by (rule ota_iter_forwards)
qed

theorem PipeThenCloseOta_mismatch_stops_witness:
  "12 \<le> (64 :: nat) \<and>
   ReadFull_Conn demo (demo_conn [([0, 2] @ replicate 10 0 @ [5, 6], None)] (Some 0) [9, 9] 0) 12 =
     (([0, 2] @ replicate 10 0, None), demo_conn [([5, 6], None)] (Some 12) [9, 9] 0) \<and>
   dataBuf_len 64 (Uint16 (take 2 ([0, 2] @ replicate 10 0))) = Some 2 \<and>
   ReadFull_Conn demo (demo_conn [([5, 6], None)] (Some 12) [9, 9] 0) 2 =
     (([5, 6], None), demo_conn [] (Some 14) [9, 9] 0) \<and>
   take 10 (drop 2 ([0, 2] @ replicate 10 0)) \<noteq>
     HmacSha1 demo (iv (cipher (demo_conn [] (Some 14) [9, 9] 0)) @
                    PutUint32 (chunkId (demo_conn [] (Some 14) [9, 9] 0))) [5, 6] \<and>
   PipeThenCloseOta demo 64
       (demo_conn [([0, 2] @ replicate 10 0 @ [5, 6], None)] (Some 0) [9, 9] 0) (demo_net [] []) =
     (False, demo_conn [] (Some 14) [9, 9] 1, net_Close (demo_net [] [])) \<and>
   written (net_Close (demo_net [] [])) = []"
proof -
  have h: "ReadFull_Conn demo (demo_conn [([0, 2] @ replicate 10 0 @ [5, 6], None)] (Some 0) [9, 9] 0) 12 =
     (([0, 2] @ replicate 10 0, None), demo_conn [([5, 6], None)] (Some 12) [9, 9] 0)"
    by code_simp
  have k: "dataBuf_len 64 (Uint16 (take 2 ([0, 2] @ replicate 10 0))) = Some 2"
    by code_simp
  have d: "ReadFull_Conn demo (demo_conn [([5, 6], None)] (Some 12) [9, 9] 0) 2 =
     (([5, 6], None), demo_conn [] (Some 14) [9, 9] 0)"
    by code_simp
  have t: "take 10 (drop 2 ([0, 2] @ replicate 10 0)) \<noteq>
     HmacSha1 demo (iv (cipher (demo_conn [] (Some 14) [9, 9] 0)) @
                    PutUint32 (chunkId (demo_conn [] (Some 14) [9, 9] 0))) [5, 6]"
    by code_simp
  have u: "(demo_conn [] (Some 14) [9, 9] 0)\<lparr>chunkId := chunkId (demo_conn [] (Some 14) [9, 9] 0) + 1\<rparr>
             = demo_conn [] (Some 14) [9, 9] 1"
    by (simp add: demo_conn_def)
  from PipeThenCloseOta_mismatch_stops
         [of 64 demo "demo_conn [([0, 2] @ replicate 10 0 @ [5, 6], None)] (Some 0) [9, 9] 0"
             "demo_net [] []", THEN conjunct1, rule_format, OF conjI [OF _ conjI [OF h conjI [OF k conjI [OF d t]]]]]
  show ?thesis
    using h k d t u by (simp add: net_Close_def demo_net_def)
qed

text \<open>
  A chunk whose tag is the recomputed one is forwarded, and the loop goes on.
\<close>

lemma ota_iter_forwards_example:
  "ota_iter demo 64
     (demo_conn [([0, 2] @ replicate 10 29 @ [5, 6], None)] (Some 0) [9, 9] 0, demo_net [] []) =
     Next (demo_conn [] (Some 14) [9, 9] 1, demo_net [] [[5, 6]])"
  by code_simp

lemma ota_iter_Next_chunkId:
  assumes "ota_iter P bufLen (src, dst) = Next (src', dst')"
  shows "chunkId src' = chunkId src + 1"
proof -
  have b: "12 \<le> bufLen"
    using assms by (auto simp: ota_iter_def split: if_splits)
  obtain hdr e1 src1 where h: "ReadFull_Conn P src 12 = ((hdr, e1), src1)"
    by (metis prod.collapse)
  have e1: "e1 = None"
    using assms b h by (cases e1) (auto simp: ota_iter_def SetReadTimeout_def)
  obtain k where k: "dataBuf_len bufLen (Uint16 (take 2 hdr)) = Some k"
    using assms b h e1
    by (cases "dataBuf_len bufLen (Uint16 (take 2 hdr))")
       (auto simp: ota_iter_def SetReadTimeout_def Let_def)
  obtain data e2 src2 where d: "ReadFull_Conn P src1 k = ((data, e2), src2)"
    by (metis prod.collapse)
  have e2: "e2 = None"
    using assms b h e1 k d by (cases e2) (auto simp: ota_iter_def SetReadTimeout_def Let_def)
  have "chunkId src' = chunkId src2 + 1"
    using assms ota_iter_chunk [OF b h [unfolded e1] k d [unfolded e2], of dst]
    by (auto split: if_splits prod.splits option.splits)
  moreover have "chunkId src2 = chunkId src"
    using ReadFull_Conn_chunkId [OF h] ReadFull_Conn_chunkId [OF d] by simp
  ultimately show ?thesis by simp
qed

lemma ota_iter_Next_ready:
  assumes "ota_iter P bufLen (src, dst) = Next (src', dst')" and "rd_ready src"
  shows "rd_ready src' \<and> iv (cipher src') = iv (cipher src)"
proof -
  have b: "12 \<le> bufLen"
    using assms by (auto simp: ota_iter_def split: if_splits)
  obtain hdr e1 src1 where h: "ReadFull_Conn P src 12 = ((hdr, e1), src1)"
    by (metis prod.collapse)
  have e1: "e1 = None"
    using assms b h by (cases e1) (auto simp: ota_iter_def SetReadTimeout_def)
  obtain k where k: "dataBuf_len bufLen (Uint16 (take 2 hdr)) = Some k"
    using assms b h e1
    by (cases "dataBuf_len bufLen (Uint16 (take 2 hdr))")
       (auto simp: ota_iter_def SetReadTimeout_def Let_def)
  obtain data e2 src2 where d: "ReadFull_Conn P src1 k = ((data, e2), src2)"
    by (metis prod.collapse)
  have e2: "e2 = None"
    using assms b h e1 k d by (cases e2) (auto simp: ota_iter_def SetReadTimeout_def Let_def)
  have "cipher src' = cipher src2"
    using assms ota_iter_chunk [OF b h [unfolded e1] k d [unfolded e2], of dst]
    by (auto split: if_splits prod.splits option.splits)
  moreover have "rd_ready src2 \<and> iv (cipher src2) = iv (cipher src)"
    using ReadFull_Conn_ready [OF assms(2) h] ReadFull_Conn_ready [OF _ d] by simp
  ultimately show ?thesis by (simp add: rd_ready_def)
qed

lemma ota_after_chunkId:
  "ota_after P bufLen n (src0, dst0) = Some (src, dst) \<Longrightarrow> chunkId src = chunkId src0 + of_nat n"
proof (induction n arbitrary: src0 dst0)
  case 0
  then show ?case by simp
next
  case (Suc n)
  then obtain s1 d1 where i: "ota_iter P bufLen (src0, dst0) = Next (s1, d1)"
    and r: "ota_after P bufLen n (s1, d1) = Some (src, dst)"
    by (auto split: step.splits)
  from Suc.IH [OF r] ota_iter_Next_chunkId [OF i] show ?case by simp
qed

lemma ota_after_ready:
  "ota_after P bufLen n (src0, dst0) = Some (src, dst) \<Longrightarrow> rd_ready src0 \<Longrightarrow>
     rd_ready src \<and> iv (cipher src) = iv (cipher src0)"
proof (induction n arbitrary: src0 dst0)
  case 0
  then show ?case by simp
next
  case (Suc n)
  then obtain s1 d1 where i: "ota_iter P bufLen (src0, dst0) = Next (s1, d1)"
    and r: "ota_after P bufLen n (s1, d1) = Some (src, dst)"
    by (auto split: step.splits)
  from Suc.IH [OF r] ota_iter_Next_ready [OF i Suc.prems(2)] show ?case by simp
qed

lemma ota_after_loop:
  "ota_after P bufLen n sd0 = Some sd \<Longrightarrow>
     PipeThenCloseOta_loop P bufLen sd0 = PipeThenCloseOta_loop P bufLen sd"
proof (induction n arbitrary: sd0)
  case 0
  then show ?case by simp
next
  case (Suc n)
  then obtain sd1 where i: "ota_iter P bufLen sd0 = Next sd1"
    and r: "ota_after P bufLen n sd1 = Some sd"
    by (auto split: step.splits)
  from Suc.IH [OF r] i show ?case
    by (subst PipeThenCloseOta_loop.simps) simp
qed

text \<open>
  Claim C5. Let the relay start on a connection whose chunk counter is 0 and let
  \<open>n\<close> chunks have been verified and forwarded. For the next chunk (the \<open>(n+1)\<close>-th)
  the header tag is compared with the first ten bytes of the HMAC whose key is the
  connection IV followed by the big-endian 32-bit value \<open>n mod 2^32\<close> and whose message
  is exactly the data of the chunk; the counter is then \<open>n + 1\<close>. The IV is the one
  the connection had when the relay started, if its read side was initialised then.
\<close>

theorem PipeThenCloseOta_chunk_key:
  assumes "chunkId src0 = 0"
    and "ota_after P bufLen n (src0, dst0) = Some (src, dst)"
    and "12 \<le> bufLen"
    and "ReadFull_Conn P src 12 = ((hdr, None), src1)"
    and "dataBuf_len bufLen (Uint16 (take 2 hdr)) = Some k"
    and "ReadFull_Conn P src1 k = ((data, None), src2)"
  shows "ota_iter P bufLen (src, dst) =
           (if take 10 (drop 2 hdr) \<noteq>
                 take 10 (hmac P (iv (cipher src2) @ PutUint32 (of_nat n)) data)
            then Break (src2\<lparr>chunkId := of_nat n + 1\<rparr>, dst)
            else (case net_Write dst data of
                    ((m, Some e), dst1) \<Rightarrow> Break (src2\<lparr>chunkId := of_nat n + 1\<rparr>, dst1)
                  | ((m, None), dst1) \<Rightarrow> Next (src2\<lparr>chunkId := of_nat n + 1\<rparr>, dst1)))
         \<and> unat (of_nat n :: 32 word) = n mod 2 ^ 32
         \<and> PipeThenCloseOta_loop P bufLen (src0, dst0) = PipeThenCloseOta_loop P bufLen (src, dst)
         \<and> (rd_ready src0 \<longrightarrow> iv (cipher src2) = iv (cipher src0))"
proof -
  have c: "chunkId src = of_nat n"
    using ota_after_chunkId [OF assms(2)] assms(1) by simp
  have c2: "chunkId src2 = of_nat n"
    using ReadFull_Conn_chunkId [OF assms(4)] ReadFull_Conn_chunkId [OF assms(6)] c by simp
  have i: "rd_ready src0 \<longrightarrow> iv (cipher src2) = iv (cipher src0)"
  proof
    assume r0: "rd_ready src0"
    from ota_after_ready [OF assms(2) r0] have r: "rd_ready src" "iv (cipher src) = iv (cipher src0)"
      by simp_all
    from ReadFull_Conn_ready [OF r(1) assms(4)] have r1: "rd_ready src1" "iv (cipher src1) = iv (cipher src)"
      by simp_all
    from ReadFull_Conn_ready [OF r1(1) assms(6)] r1(2) r(2)
    show "iv (cipher src2) = iv (cipher src0)" by simp
  qed
  have u: "unat (of_nat n :: 32 word) = n mod 2 ^ 32"
    by (simp add: unat_of_nat)
  show ?thesis
    using ota_iter_chunk [OF assms(3) assms(4) assms(5) assms(6), of dst] c2 i u
      ota_after_loop [OF assms(2)]
    by (simp add: HmacSha1_def)
qed

theorem PipeThenCloseOta_chunk_key_witness:
  "chunkId (demo_conn [([0, 2] @ replicate 10 29 @ [5, 6], None),
                       ([0, 1] @ replicate 10 26 @ [7], None)] (Some 0) [9, 9] 0) = 0 \<and>
   ota_after demo 64 1
     (demo_conn [([0, 2] @ replicate 10 29 @ [5, 6], None),
                 ([0, 1] @ replicate 10 26 @ [7], None)] (Some 0) [9, 9] 0, demo_net [] []) =
     Some (demo_conn [([0, 1] @ replicate 10 26 @ [7], None)] (Some 14) [9, 9] 1,
           demo_net [] [[5, 6]]) \<and>
   12 \<le> (64 :: nat) \<and>
   ReadFull_Conn demo (demo_conn [([0, 1] @ replicate 10 26 @ [7], None)] (Some 14) [9, 9] 1) 12 =
     (([0, 1] @ replicate 10 26, None), demo_conn [([7], None)] (Some 26) [9, 9] 1) \<and>
   dataBuf_len 64 (Uint16 (take 2 ([0, 1] @ replicate 10 26))) = Some 1 \<and>
   ReadFull_Conn demo (demo_conn [([7], None)] (Some 26) [9, 9] 1) 1 =
     (([7], None), demo_conn [] (Some 27) [9, 9] 1) \<and>
   take 10 (hmac demo ([9, 9] @ PutUint32 (of_nat 1)) [7]) = replicate 10 26 \<and>
   ota_iter demo 64
     (demo_conn [([0, 1] @ replicate 10 26 @ [7], None)] (Some 14) [9, 9] 1, demo_net [] [[5, 6]]) =
     Next (demo_conn [] (Some 27) [9, 9] 2, demo_net [] [[5, 6], [7]])"
proof -
  have c: "chunkId (demo_conn [([0, 2] @ replicate 10 29 @ [5, 6], None),
                       ([0, 1] @ replicate 10 26 @ [7], None)] (Some 0) [9, 9] 0) = 0"
    by (simp add: demo_conn_def)
  have a: "ota_after demo 64 1
     (demo_conn [([0, 2] @ replicate 10 29 @ [5, 6], None),
                 ([0, 1] @ replicate 10 26 @ [7], None)] (Some 0) [9, 9] 0, demo_net [] []) =
     Some (demo_conn [([0, 1] @ replicate 10 26 @ [7], None)] (Some 14) [9, 9] 1,
           demo_net [] [[5, 6]])"
    by code_simp
  have b: "12 \<le> (64 :: nat)" by simp
  have h: "ReadFull_Conn demo (demo_conn [([0, 1] @ replicate 10 26 @ [7], None)] (Some 14) [9, 9] 1) 12 =
     (([0, 1] @ replicate 10 26, None), demo_conn [([7], None)] (Some 26) [9, 9] 1)"
    by code_simp
  have k: "dataBuf_len 64 (Uint16 (take 2 ([0, 1] @ replicate 10 26))) = Some 1"
    by code_simp
  have d: "ReadFull_Conn demo (demo_conn [([7], None)] (Some 26) [9, 9] 1) 1 =
     (([7], None), demo_conn [] (Some 27) [9, 9] 1)"
    by code_simp
  have t: "take 10 (hmac demo ([9, 9] @ PutUint32 (of_nat 1)) [7]) = replicate 10 26"
    by code_simp
  have w: "net_Write (demo_net [] [[5, 6]]) [7] = ((1, None), demo_net [] [[5, 6], [7]])"
    by (simp add: net_Write_def demo_net_def)
  have u: "(demo_conn [] (Some 27) [9, 9] 1)\<lparr>chunkId := of_nat 1 + 1\<rparr> = demo_conn [] (Some 27) [9, 9] 2"
    by (simp add: demo_conn_def)
  have i: "iv (cipher (demo_conn [] (Some 27) [9, 9] 1)) = [9, 9]"
    by (simp add: demo_conn_def)
  from PipeThenCloseOta_chunk_key [OF c a b h k d] t w u i
  show ?thesis
    using c a h k d by simp
qed

section \<open>Properties of the IV and key accessors\<close>

lemma same_below_slice:
  "same_below (length h) h h' \<Longrightarrow> slice_ok h s \<Longrightarrow> slice_bytes h' s = slice_bytes h s"
  by (simp add: same_below_def slice_ok_def slice_bytes_def)

lemma fresh_copy:
  assumes "slice_ok h s"
    and "(case make_bytes h (sl_len s) of (v, h1) \<Rightarrow> (v, copy_slice h1 v s)) = (r, h')"
  shows "sl_arr r = length h \<and> sl_off r = 0 \<and> sl_len r = sl_len s \<and> sl_cap r = sl_len s \<and>
         length h' = Suc (length h) \<and>
         h' ! length h = slice_bytes h s \<and>
         same_below (length h) h h'"
proof -
  have l: "length (slice_bytes h s) = sl_len s"
    using assms(1) by (auto simp: slice_ok_def slice_bytes_def)
  have b: "slice_bytes (h @ [replicate (sl_len s) 0]) s = slice_bytes h s"
    using assms(1) by (simp add: slice_ok_def slice_bytes_def nth_append)
  show ?thesis
    using l b assms(2)
    by (auto simp: make_bytes_def copy_slice_def Let_def same_below_def nth_append)
qed

lemma set_index_fresh:
  assumes "sl_arr r = n" and "n < length h'" and "set_index h' r i v = Some h''"
  shows "same_below n h' h''"
  using assms by (auto simp: set_index_def same_below_def split: if_splits)

lemma append_bytes_fresh:
  assumes "sl_arr r = n" and "n < length h'"
  shows "same_below n h' (snd (append_bytes g h' r xs))"
  using assms by (auto simp: append_bytes_def same_below_def Let_def nth_append)

lemma append_bytes_contents:
  assumes "slice_ok h r"
  shows "slice_bytes (snd (append_bytes g h r xs)) (fst (append_bytes g h r xs)) = slice_bytes h r @ xs"
proof (cases "sl_len r + length xs \<le> sl_cap r")
  case True
  have e: "sl_off r + sl_len r + length xs \<le> length (h ! sl_arr r)"
    using True assms by (simp add: slice_ok_def)
  have a: "sl_arr r < length h"
    using assms by (simp add: slice_ok_def)
  have d: "drop (sl_off r) (take (sl_off r + sl_len r) (h ! sl_arr r)) =
             take (sl_len r) (drop (sl_off r) (h ! sl_arr r))"
    by (simp add: drop_take)
  have n: "length (take (sl_len r) (drop (sl_off r) (h ! sl_arr r))) = sl_len r"
    using e by simp
  show ?thesis
    using True e a d n
    by (simp add: append_bytes_def slice_bytes_def Let_def)
next
  case False
  have "length (slice_bytes h r) = sl_len r"
    using assms by (auto simp: slice_ok_def slice_bytes_def)
  with False show ?thesis
    by (auto simp: append_bytes_def slice_bytes_def Let_def)
qed

lemma same_below_trans:
  "same_below n h h' \<Longrightarrow> same_below n h' h'' \<Longrightarrow> same_below n h h''"
  by (auto simp: same_below_def)

lemma fresh_copy_private:
  assumes "slice_ok h c_iv" and "slice_ok h c_key" and s: "slice_ok h src"
  shows "private_copy h c_iv c_key src
           (case make_bytes h (sl_len src) of (v, h1) \<Rightarrow> (v, copy_slice h1 v src))"
proof -
  obtain r h' where r: "(case make_bytes h (sl_len src) of (v, h1) \<Rightarrow> (v, copy_slice h1 v src)) = (r, h')"
    by (cases "case make_bytes h (sl_len src) of (v, h1) \<Rightarrow> (v, copy_slice h1 v src)")
  from fresh_copy [OF s r]
  have f: "sl_arr r = length h" "sl_off r = 0" "sl_len r = sl_len src" "sl_cap r = sl_len src"
    "length h' = Suc (length h)" "h' ! length h = slice_bytes h src" "same_below (length h) h h'"
    by simp_all
  have ls: "length (slice_bytes h src) = sl_len src"
    using s by (auto simp: slice_ok_def slice_bytes_def)
  have ok: "slice_ok h' r"
    using f ls by (simp add: slice_ok_def)
  have c: "slice_bytes h' r = slice_bytes h src"
    using f ls by (simp add: slice_bytes_def)
  have lt: "length h < length h'"
    using f by simp
  have keep: "\<And>h''. same_below (length h) h' h'' \<Longrightarrow>
      slice_bytes h'' c_iv = slice_bytes h c_iv \<and> slice_bytes h'' c_key = slice_bytes h c_key"
    using same_below_slice [OF same_below_trans [OF f(7)]] assms(1,2) by blast
  have k0: "slice_bytes h' c_iv = slice_bytes h c_iv \<and> slice_bytes h' c_key = slice_bytes h c_key"
    using same_below_slice [OF f(7)] assms(1,2) by blast
  have k1: "\<forall>i v h''. set_index h' r i v = Some h'' \<longrightarrow>
      slice_bytes h'' c_iv = slice_bytes h c_iv \<and> slice_bytes h'' c_key = slice_bytes h c_key"
    using keep set_index_fresh [OF f(1) lt] by blast
  have k2: "\<forall>g xs. slice_bytes (snd (append_bytes g h' r xs)) c_iv = slice_bytes h c_iv \<and>
                  slice_bytes (snd (append_bytes g h' r xs)) c_key = slice_bytes h c_key \<and>
                  slice_bytes (snd (append_bytes g h' r xs)) (fst (append_bytes g h' r xs)) =
                    slice_bytes h src @ xs"
    using keep append_bytes_fresh [OF f(1) lt] append_bytes_contents [OF ok] c by simp
  show ?thesis
    using r f(1) ok c k0 k1 k2 by (simp add: private_copy_def)
qed

text \<open>
  The store does tell a copy from an alias: appending to a slice that has spare
  capacity writes into its own backing array, past its length.
\<close>

lemma append_bytes_in_place:
  "append_bytes 4 [[9, 8, 7, 0, 0, 1, 2, 3]] \<lparr>sl_arr = 0, sl_off = 0, sl_len = 3, sl_cap = 5\<rparr> [5, 5] =
     (\<lparr>sl_arr = 0, sl_off = 0, sl_len = 5, sl_cap = 5\<rparr>, [[9, 8, 7, 5, 5, 1, 2, 3]])"
  by code_simp

text \<open>
  Claim C10. \<open>GetIv\<close> and \<open>GetKey\<close> return a slice on a newly allocated array whose
  contents are those of the stored IV (key). The stored IV and key read the same
  after the call, after any write through the returned slice, and after any append
  to it; an append yields the copied bytes followed by the appended ones. This is
  what the relay relies on when it appends the chunk id to the result of \<open>GetIv\<close>.
\<close>

theorem GetIv_GetKey_private_copies:
  assumes "slice_ok h c_iv" and "slice_ok h c_key"
  shows "private_copy h c_iv c_key c_iv (GetIv_heap h c_iv) \<and>
         private_copy h c_iv c_key c_key (GetKey_heap h c_key)"
  using fresh_copy_private [OF assms assms(1)] fresh_copy_private [OF assms assms(2)]
  by (simp add: GetIv_heap_def GetKey_heap_def)

theorem GetIv_GetKey_private_copies_witness:
  "slice_ok [[9, 8, 7, 0, 0, 1, 2, 3]] \<lparr>sl_arr = 0, sl_off = 0, sl_len = 3, sl_cap = 5\<rparr> \<and>
   slice_ok [[9, 8, 7, 0, 0, 1, 2, 3]] \<lparr>sl_arr = 0, sl_off = 5, sl_len = 3, sl_cap = 3\<rparr> \<and>
   GetIv_heap [[9, 8, 7, 0, 0, 1, 2, 3]] \<lparr>sl_arr = 0, sl_off = 0, sl_len = 3, sl_cap = 5\<rparr> =
     (\<lparr>sl_arr = 1, sl_off = 0, sl_len = 3, sl_cap = 3\<rparr>, [[9, 8, 7, 0, 0, 1, 2, 3], [9, 8, 7]]) \<and>
   private_copy [[9, 8, 7, 0, 0, 1, 2, 3]]
     \<lparr>sl_arr = 0, sl_off = 0, sl_len = 3, sl_cap = 5\<rparr> \<lparr>sl_arr = 0, sl_off = 5, sl_len = 3, sl_cap = 3\<rparr>
     \<lparr>sl_arr = 0, sl_off = 0, sl_len = 3, sl_cap = 5\<rparr>
     (\<lparr>sl_arr = 1, sl_off = 0, sl_len = 3, sl_cap = 3\<rparr>, [[9, 8, 7, 0, 0, 1, 2, 3], [9, 8, 7]]) \<and>
   append_bytes 4 [[9, 8, 7, 0, 0, 1, 2, 3], [9, 8, 7]]
     \<lparr>sl_arr = 1, sl_off = 0, sl_len = 3, sl_cap = 3\<rparr> [0, 0, 0, 1] =
     (\<lparr>sl_arr = 2, sl_off = 0, sl_len = 7, sl_cap = 11\<rparr>,
      [[9, 8, 7, 0, 0, 1, 2, 3], [9, 8, 7], [9, 8, 7, 0, 0, 0, 1, 0, 0, 0, 0]])"
proof -
  have a: "slice_ok [[9, 8, 7, 0, 0, 1, 2, 3]] \<lparr>sl_arr = 0, sl_off = 0, sl_len = 3, sl_cap = 5\<rparr>"
    "slice_ok [[9, 8, 7, 0, 0, 1, 2, 3]] \<lparr>sl_arr = 0, sl_off = 5, sl_len = 3, sl_cap = 3\<rparr>"
    by (simp_all add: slice_ok_def)
  have g: "GetIv_heap [[9, 8, 7, 0, 0, 1, 2, 3]] \<lparr>sl_arr = 0, sl_off = 0, sl_len = 3, sl_cap = 5\<rparr> =
     (\<lparr>sl_arr = 1, sl_off = 0, sl_len = 3, sl_cap = 3\<rparr>, [[9, 8, 7, 0, 0, 1, 2, 3], [9, 8, 7]])"
    by code_simp
  have p: "append_bytes 4 [[9, 8, 7, 0, 0, 1, 2, 3], [9, 8, 7]]
     \<lparr>sl_arr = 1, sl_off = 0, sl_len = 3, sl_cap = 3\<rparr> [0, 0, 0, 1] =
     (\<lparr>sl_arr = 2, sl_off = 0, sl_len = 7, sl_cap = 11\<rparr>,
      [[9, 8, 7, 0, 0, 1, 2, 3], [9, 8, 7], [9, 8, 7, 0, 0, 0, 1, 0, 0, 0, 0]])"
    by code_simp
  have c: "private_copy [[9, 8, 7, 0, 0, 1, 2, 3]]
     \<lparr>sl_arr = 0, sl_off = 0, sl_len = 3, sl_cap = 5\<rparr> \<lparr>sl_arr = 0, sl_off = 5, sl_len = 3, sl_cap = 3\<rparr>
     \<lparr>sl_arr = 0, sl_off = 0, sl_len = 3, sl_cap = 5\<rparr>
     (\<lparr>sl_arr = 1, sl_off = 0, sl_len = 3, sl_cap = 3\<rparr>, [[9, 8, 7, 0, 0, 1, 2, 3], [9, 8, 7]])"
    using GetIv_GetKey_private_copies [OF a, THEN conjunct1] unfolding g .
  show ?thesis
    by (intro conjI a g c p)
qed

end
